theory Spec2Isabelle
  imports Complex_Main "HOL-Library.AList"
begin

section \<open>JavaScript arithmetic on integers\<close>

text \<open>
  Desktop numbers, window identifiers and pixel coordinates are JavaScript numbers that
  hold integers; they are modelled as \<^typ>\<open>int\<close>.  The remainder operator \<open>%\<close> truncates
  towards zero, so its result carries the sign of the dividend.  \<open>Math.round\<close> rounds to
  the nearest integer and rounds a tie towards plus infinity.
\<close>

definition js_rem :: "int \<Rightarrow> int \<Rightarrow> int" where
  "js_rem a b = sgn a * (\<bar>a\<bar> mod \<bar>b\<bar>)"

definition Math_round :: "real \<Rightarrow> int" where
  "Math_round v = \<lfloor>v + 1 / 2\<rfloor>"


section \<open>Settings (virtualdesktops.settings) and global defines\<close>

text \<open>
  \<open>clampDefault_\<close> receives the result of \<open>parseInt\<close> on the stored string; \<open>None\<close> stands
  for \<open>NaN\<close>.  Its parameters \<open>min\<close> and \<open>max\<close> are called \<open>lo\<close> and \<open>hi\<close> here.
\<close>

definition clampDefault :: "int option \<Rightarrow> int \<Rightarrow> int \<Rightarrow> int \<Rightarrow> int" where
  "clampDefault val lo hi def = (case val of None \<Rightarrow> def | Some v \<Rightarrow> min (max v lo) hi)"

definition getDesktops :: "int option \<Rightarrow> int" where
  "getDesktops stored = clampDefault stored 1 10 4"


definition WINDOW_MANAGER_ATTEMPTS :: nat where
  "WINDOW_MANAGER_ATTEMPTS = 5"

definition WINDOW_MANAGER_TOLERANCE :: int where
  "WINDOW_MANAGER_TOLERANCE = 64"


section \<open>Data of the virtual desktop manager\<close>

text \<open>
  Field names carry a prefix because a record field is a global constant in HOL:
  \<open>win_\<close> for a \<open>ChromeWindow\<close> snapshot, \<open>ws_\<close> for a remembered \<open>WindowState\<close>
  (\<open>desktop\<close>, \<open>state\<close>, \<open>x\<close>, \<open>y\<close>, \<open>w\<close>, \<open>h\<close>) and \<open>ui_\<close> for a
  \<open>ChromeWindowUpdateInfo\<close>, where \<open>None\<close> is an absent (undefined) member.
  A snapshot that the browser delivers carries its bounds as numbers; a remembered
  state read back from the local storage may lack them.
  The private members \<open>currentDesktop_\<close> and \<open>windowStates_\<close> lose their trailing
  underscore.  The object \<open>windowStates_\<close> is an association list from window
  identifiers to states: \<open>map_of\<close> reads a key, \<open>AList.update\<close> assigns one and
  \<open>AList.delete\<close> is the \<open>delete\<close> operator.
\<close>

record ChromeWindow =
  win_id :: int
  win_left :: int
  win_top :: int
  win_width :: int
  win_height :: int
  win_state :: string
  win_focused :: bool

record WindowState =
  ws_desktop :: int
  ws_state :: string
  ws_x :: "int option"
  ws_y :: "int option"
  ws_w :: "int option"
  ws_h :: "int option"

record ChromeWindowUpdateInfo =
  ui_state :: "string option"
  ui_focused :: "bool option"
  ui_left :: "int option"
  ui_top :: "int option"
  ui_width :: "int option"
  ui_height :: "int option"

record VirtualDesktopManager =
  currentDesktop :: int
  windowStates :: "(int \<times> WindowState) list"

definition MINIMIZED_STATE :: string where
  "MINIMIZED_STATE = ''minimized''"

text \<open>
  The value handed to \<open>switchToDesktop\<close> as \<open>focusedWinId\<close>: a number, a window object
  or \<open>null\<close>.  The comparison \<open>w.id == focusedWinId\<close> holds for a number equal to the
  identifier only, and only a number is a key of \<open>windowStates_\<close>.
\<close>

datatype winref = WinId int | WinObject ChromeWindow | WinNull

fun looseEq :: "int \<Rightarrow> winref \<Rightarrow> bool" where
  "looseEq i (WinId j) = (i = j)"
| "looseEq i (WinObject w) = False"
| "looseEq i WinNull = False"


datatype error = TypeError

text \<open>The calls a manager operation makes on its collaborators, in the order made.\<close>

datatype call =
    GetAll
  | GetLastFocused
  | Update int ChromeWindowUpdateInfo
  | OnChange int
  | SaveState int "(int \<times> WindowState) list"
  | Callback


section \<open>updateWindowStates_\<close>

definition currentStateOf :: "VirtualDesktopManager \<Rightarrow> ChromeWindow \<Rightarrow> WindowState" where
  "currentStateOf this w =
     \<lparr>ws_desktop = currentDesktop this, ws_state = win_state w,
      ws_x = Some (win_left w), ws_y = Some (win_top w),
      ws_w = Some (win_width w), ws_h = Some (win_height w)\<rparr>"

text \<open>One iteration of the loop over the queried windows.\<close>

definition updateWindowState ::
  "VirtualDesktopManager \<Rightarrow> ChromeWindow \<Rightarrow> (int \<times> WindowState) list \<Rightarrow> (int \<times> WindowState) list"
where
  "updateWindowState this w states =
     (case map_of (windowStates this) (win_id w) of
        None \<Rightarrow> AList.update (win_id w) (currentStateOf this w) states
      | Some s \<Rightarrow>
          if ws_desktop s = currentDesktop this \<or> win_state w \<noteq> MINIMIZED_STATE
          then AList.update (win_id w) (currentStateOf this w) states
          else AList.update (win_id w) s states)"

definition updateWindowStates :: "VirtualDesktopManager \<Rightarrow> ChromeWindow list \<Rightarrow> VirtualDesktopManager" where
  "updateWindowStates this windows =
     this\<lparr>windowStates := fold (updateWindowState this) windows []\<rparr>"


section \<open>numberToDesktopId_\<close>

text \<open>
  The clamping of the current desktop number and the shift of the request that goes
  with it: the pair of \<open>clampedCurrentDesktop\<close> and the new \<open>reqDesktop\<close>.
\<close>

definition clampCurrent :: "int \<Rightarrow> int \<Rightarrow> int \<Rightarrow> int \<times> int" where
  "clampCurrent n cur reqDesktop =
     (if cur > n - 1 then
        (n - 1,
         if reqDesktop > cur then reqDesktop - (cur - (n - 1))
         else if reqDesktop > n - 1 then n - 1
         else reqDesktop)
      else (cur, reqDesktop))"

definition wrapDesktop :: "int \<Rightarrow> int \<Rightarrow> int" where
  "wrapDesktop n reqDesktop = js_rem (js_rem (reqDesktop + n) n + n) n"

text \<open>Counting the remembered windows that are not minimized, per desktop.\<close>

definition countWindow ::
  "(int \<times> WindowState) list \<Rightarrow> int \<Rightarrow> (int \<rightharpoonup> nat) \<Rightarrow> (int \<rightharpoonup> nat)"
where
  "countWindow states w cnt =
     (case map_of states w of
        None \<Rightarrow> cnt
      | Some s \<Rightarrow>
          if ws_state s \<noteq> MINIMIZED_STATE
          then cnt(ws_desktop s \<mapsto> (case cnt (ws_desktop s) of None \<Rightarrow> 0 | Some c \<Rightarrow> c) + 1)
          else cnt)"

definition nWindowsOnDesktop :: "(int \<times> WindowState) list \<Rightarrow> (int \<rightharpoonup> nat)" where
  "nWindowsOnDesktop states = fold (countWindow states) (map fst states) Map.empty"

definition hasWindows :: "(int \<rightharpoonup> nat) \<Rightarrow> int \<Rightarrow> bool" where
  "hasWindows cnt d = (case cnt d of None \<Rightarrow> False | Some c \<Rightarrow> c > 0)"

text \<open>
  The direction of adjustment: the difference mapped by \<open>Math.round\<close>, then its sign,
  where a difference of zero counts as a backwards move.
\<close>

definition mapDirection :: "int \<Rightarrow> int \<Rightarrow> int" where
  "mapDirection n direction = direction - n * Math_round (real_of_int direction / real_of_int n)"

definition adjustDirection :: "int \<Rightarrow> int \<Rightarrow> int \<Rightarrow> int" where
  "adjustDirection n reqDesktop clampedCurrentDesktop =
     (if mapDirection n (reqDesktop - clampedCurrentDesktop) \<le> 0 then - 1 else 1)"

text \<open>
  The loop that refuses an empty desktop.  It has no bound of its own, so it is a partial
  function: \<open>None\<close> is a loop that never ends.
\<close>

partial_function (option) skipEmpty ::
  "(int \<rightharpoonup> nat) \<Rightarrow> int \<Rightarrow> int \<Rightarrow> int \<Rightarrow> int \<Rightarrow> int option"
where
  "skipEmpty cnt n direction clampedCurrentDesktop reqDesktop =
     (if hasWindows cnt reqDesktop then Some reqDesktop
      else (let r = js_rem (reqDesktop + direction + n) n
            in if r = clampedCurrentDesktop then Some r
               else skipEmpty cnt n direction clampedCurrentDesktop r))"

definition numberToDesktopId ::
  "int \<Rightarrow> VirtualDesktopManager \<Rightarrow> int \<Rightarrow> bool \<Rightarrow> int option"
where
  "numberToDesktopId n this reqDesktop disallowEmpty =
     (let (clampedCurrentDesktop, req1) = clampCurrent n (currentDesktop this) reqDesktop;
          req2 = wrapDesktop n req1
      in if disallowEmpty
         then skipEmpty (nWindowsOnDesktop (windowStates this)) n
                (adjustDirection n req2 clampedCurrentDesktop) clampedCurrentDesktop req2
         else Some req2)"


section \<open>applyWindowStates_, switchToDesktop and forgetWindow\<close>

definition noUpdate :: ChromeWindowUpdateInfo where
  "noUpdate = \<lparr>ui_state = None, ui_focused = None, ui_left = None, ui_top = None,
               ui_width = None, ui_height = None\<rparr>"

text \<open>Reading \<open>this.windowStates_[w.id].desktop\<close> of an unknown window throws.\<close>

definition restoreState :: "VirtualDesktopManager \<Rightarrow> ChromeWindow \<Rightarrow> error + call list" where
  "restoreState this w =
     (case map_of (windowStates this) (win_id w) of
        None \<Rightarrow> Inl TypeError
      | Some s \<Rightarrow>
          if ws_desktop s = currentDesktop this
          then Inr [Update (win_id w)
                      (noUpdate\<lparr>ui_state := Some (ws_state s),
                                ui_focused := Some (ws_state s \<noteq> MINIMIZED_STATE)\<rparr>)]
          else if win_state w = MINIMIZED_STATE then Inr []
          else Inr [Update (win_id w) (noUpdate\<lparr>ui_state := Some MINIMIZED_STATE\<rparr>)])"

definition restoreBounds ::
  "VirtualDesktopManager \<Rightarrow> winref \<Rightarrow> ChromeWindow \<Rightarrow> error + call list"
where
  "restoreBounds this focusedWinId w =
     (case map_of (windowStates this) (win_id w) of
        None \<Rightarrow> Inl TypeError
      | Some s \<Rightarrow>
          if ws_desktop s = currentDesktop this \<and> ws_state s \<noteq> MINIMIZED_STATE
          then Inr [Update (win_id w)
                      (noUpdate\<lparr>ui_left := ws_x s, ui_top := ws_y s,
                                ui_width := ws_w s, ui_height := ws_h s,
                                ui_focused := (if looseEq (win_id w) focusedWinId
                                               then Some True else None)\<rparr>)]
          else Inr [])"

text \<open>A loop over the windows whose body may throw.\<close>

fun forEach :: "('a \<Rightarrow> error + call list) \<Rightarrow> 'a list \<Rightarrow> error + call list" where
  "forEach body [] = Inr []"
| "forEach body (w # ws) =
     (case body w of
        Inl e \<Rightarrow> Inl e
      | Inr cs \<Rightarrow> (case forEach body ws of Inl e \<Rightarrow> Inl e | Inr ds \<Rightarrow> Inr (cs @ ds)))"

text \<open>
  The two rounds of updates are joined by barriers: the second round is issued when
  every update of the first is acknowledged, and the callback runs when every update of
  the second is.  The window provider acknowledges every update, so the calls are those
  of the first round, those of the second, then the callback.
\<close>

definition applyWindowStates ::
  "VirtualDesktopManager \<Rightarrow> ChromeWindow list \<Rightarrow> winref \<Rightarrow> error + call list"
where
  "applyWindowStates this windows focusedWinId =
     (case forEach (restoreState this) windows of
        Inl e \<Rightarrow> Inl e
      | Inr states \<Rightarrow>
          (case forEach (restoreBounds this focusedWinId) windows of
             Inl e \<Rightarrow> Inl e
           | Inr bounds \<Rightarrow> Inr (states @ bounds @ [Callback])))"

definition sendWindow :: "VirtualDesktopManager \<Rightarrow> winref \<Rightarrow> int \<Rightarrow> VirtualDesktopManager" where
  "sendWindow this focusedWinId desktop =
     (case focusedWinId of
        WinId j \<Rightarrow>
          (case map_of (windowStates this) j of
             None \<Rightarrow> this
           | Some s \<Rightarrow>
               this\<lparr>windowStates := AList.update j (s\<lparr>ws_desktop := desktop\<rparr>) (windowStates this)\<rparr>)
      | WinObject w \<Rightarrow> this
      | WinNull \<Rightarrow> this)"

text \<open>
  \<open>switchToDesktop\<close> with the desktop count \<open>n\<close> read from the settings, the value of
  \<open>DISALLOW_EMPTY_DESKTOPS\<close> and the answer \<open>windows\<close> of the query for all windows.
  The result is \<open>None\<close> when a call of \<open>numberToDesktopId_\<close> does not return.
\<close>

definition switchToDesktop ::
  "int \<Rightarrow> bool \<Rightarrow> VirtualDesktopManager \<Rightarrow> ChromeWindow list \<Rightarrow> int \<Rightarrow> winref \<Rightarrow> bool
     \<Rightarrow> (error + VirtualDesktopManager \<times> call list) option"
where
  "switchToDesktop n disallowEmptyDesktops this windows desktop focusedWinId sendToDesktop =
     (let this1 = updateWindowStates this windows in
      case numberToDesktopId n this1 desktop False of
        None \<Rightarrow> None
      | Some desktop1 \<Rightarrow>
          (let this2 = (if sendToDesktop then sendWindow this1 focusedWinId desktop1 else this1);
               prevDesktop = currentDesktop this2
           in case numberToDesktopId n this2 desktop1 disallowEmptyDesktops of
                None \<Rightarrow> None
              | Some newDesktop \<Rightarrow>
                  (let this3 = this2\<lparr>currentDesktop := newDesktop\<rparr>;
                       calls = [GetAll, OnChange newDesktop,
                                SaveState newDesktop (windowStates this3)]
                   in if currentDesktop this3 \<noteq> prevDesktop
                      then (case applyWindowStates this3 windows focusedWinId of
                              Inl e \<Rightarrow> Some (Inl e)
                            | Inr applied \<Rightarrow> Some (Inr (this3, calls @ applied)))
                      else Some (Inr (this3, calls @ [Callback])))))"

text \<open>
  \<open>forgetWindow\<close>, with the answer \<open>win\<close> of the query for the last focused window
  (\<open>None\<close> is \<open>null\<close>) and the answer \<open>windows\<close> of the query for all windows.
\<close>

definition forgetWindow ::
  "int \<Rightarrow> bool \<Rightarrow> VirtualDesktopManager \<Rightarrow> int \<Rightarrow> ChromeWindow option \<Rightarrow> ChromeWindow list
     \<Rightarrow> (error + VirtualDesktopManager \<times> call list) option"
where
  "forgetWindow n disallowEmptyDesktops this winId win windows =
     (let this1 = this\<lparr>windowStates := AList.delete winId (windowStates this)\<rparr>;
          saved = SaveState (currentDesktop this1) (windowStates this1)
      in if disallowEmptyDesktops
         then (case switchToDesktop n disallowEmptyDesktops this1 windows (currentDesktop this1)
                      (case win of None \<Rightarrow> WinNull | Some v \<Rightarrow> WinObject v) False of
                 None \<Rightarrow> None
               | Some (Inl e) \<Rightarrow> Some (Inl e)
               | Some (Inr (this2, calls)) \<Rightarrow> Some (Inr (this2, saved # GetLastFocused # calls)))
         else Some (Inr (this1, [saved, Callback])))"


section \<open>The empty-desktop rule in the words of the specification\<close>

text \<open>
  The specification describes the direction of adjustment as the sign of the difference
  between the wrapped request and the clamped current desktop, after the difference is
  mapped into the interval that excludes \<open>-n/2\<close> and includes \<open>n/2\<close>, with \<open>-1\<close> for a
  difference of zero.  \<open>spec_direction\<close> and \<open>spec_normalizeDesktopIndex\<close> follow these
  words, for comparison with \<open>adjustDirection\<close> and \<open>numberToDesktopId\<close>, which follow the
  code.
\<close>

definition spec_direction :: "int \<Rightarrow> int \<Rightarrow> int \<Rightarrow> int" where
  "spec_direction n requested clampedCurrent =
     (let m = (requested - clampedCurrent) mod n;
          d = (if n < 2 * m then m - n else m)
      in if d = 0 then - 1 else sgn d)"

definition spec_normalizeDesktopIndex :: "int \<Rightarrow> VirtualDesktopManager \<Rightarrow> int \<Rightarrow> int option" where
  "spec_normalizeDesktopIndex n this requested =
     (let (clampedCurrent, req1) = clampCurrent n (currentDesktop this) requested;
          req2 = req1 mod n
      in skipEmpty (nWindowsOnDesktop (windowStates this)) n
           (spec_direction n req2 clampedCurrent) clampedCurrent req2)"

text \<open>Remembered states used as concrete inputs.\<close>

definition normalWindow :: "int \<Rightarrow> WindowState" where
  "normalWindow d = \<lparr>ws_desktop = d, ws_state = ''normal'', ws_x = Some 0, ws_y = Some 0,
                      ws_w = Some 640, ws_h = Some 480\<rparr>"

definition threeDesktops :: VirtualDesktopManager where
  "threeDesktops = \<lparr>currentDesktop = 0, windowStates = [(1, normalWindow 0), (2, normalWindow 2)]\<rparr>"

definition tieDesktops :: VirtualDesktopManager where
  "tieDesktops = \<lparr>currentDesktop = 0,
                   windowStates = [(1, normalWindow 0), (2, normalWindow 1), (3, normalWindow 3)]\<rparr>"


definition liveWindow :: "int \<Rightarrow> string \<Rightarrow> ChromeWindow" where
  "liveWindow i st = \<lparr>win_id = i, win_left = 0, win_top = 0, win_width = 640, win_height = 480,
                       win_state = st, win_focused = False\<rparr>"



definition lastWindowShrunk :: VirtualDesktopManager where
  "lastWindowShrunk = \<lparr>currentDesktop = 4, windowStates = [(1, normalWindow 4)]\<rparr>"


section \<open>The window provider: update and checkWindowUpdated_\<close>

text \<open>
  \<open>fixUpdateInfo\<close> compares the bounds read back with the requested ones.  A pair of
  members of the request counts when both are present (\<open>!= null\<close>).
\<close>

definition WINDOW_MANAGER_UPDATE_DELAY_MS :: nat where
  "WINDOW_MANAGER_UPDATE_DELAY_MS = 50"

record Fixes =
  newUpdateInfo :: ChromeWindowUpdateInfo
  distance :: int

definition fixUpdateInfo :: "ChromeWindow \<Rightarrow> ChromeWindowUpdateInfo \<Rightarrow> Fixes" where
  "fixUpdateInfo win updateInfo =
     (let (width1, distance1) =
            (case (ui_width updateInfo, ui_left updateInfo) of
               (Some uw, Some ul) \<Rightarrow>
                 (let dx = (win_left win + win_width win) - (ul + uw)
                  in (Some (uw - dx), \<bar>dx\<bar>))
             | _ \<Rightarrow> (None, 0));
          (height1, distance2) =
            (case (ui_height updateInfo, ui_top updateInfo) of
               (Some uh, Some ut) \<Rightarrow>
                 (let dy = (win_top win + win_height win) - (ut + uh)
                  in (Some (uh - dy), distance1 + \<bar>dy\<bar>))
             | _ \<Rightarrow> (None, distance1))
      in \<lparr>newUpdateInfo = noUpdate\<lparr>ui_width := width1, ui_height := height1\<rparr>,
          distance = distance2\<rparr>)"

text \<open>
  The calls of the window provider on the browser and on its caller: an update of a
  window, a timer, a query for a window, and the callback (\<open>Done\<close>).  The answers of
  the browser to the queries are a parameter: \<open>observe i\<close> is the window read back at
  checking attempt \<open>i\<close>, and \<open>None\<close> is a window that has disappeared.
\<close>

datatype wm_call =
    WindowsUpdate int ChromeWindowUpdateInfo
  | SetTimeout nat
  | WindowsGet int
  | Done

function checkWindowUpdated ::
  "(nat \<Rightarrow> ChromeWindow option) \<Rightarrow> int \<Rightarrow> ChromeWindowUpdateInfo \<Rightarrow> nat \<Rightarrow> wm_call list"
where
  "checkWindowUpdated observe winId updateInfo i =
     (if i \<ge> WINDOW_MANAGER_ATTEMPTS then [Done]
      else SetTimeout WINDOW_MANAGER_UPDATE_DELAY_MS # WindowsGet winId #
        (case observe i of
           None \<Rightarrow> [Done]
         | Some win \<Rightarrow>
             (let fixes = fixUpdateInfo win updateInfo
              in if distance fixes = 0 then [Done]
                 else if distance fixes > WINDOW_MANAGER_TOLERANCE
                 then checkWindowUpdated observe winId updateInfo (i + 1)
                 else [WindowsUpdate winId (newUpdateInfo fixes), Done])))"
  by pat_completeness auto
termination
  by (relation "measure (\<lambda>(observe, winId, updateInfo, i). WINDOW_MANAGER_ATTEMPTS - i)") auto

definition update ::
  "(nat \<Rightarrow> ChromeWindow option) \<Rightarrow> int \<Rightarrow> ChromeWindowUpdateInfo \<Rightarrow> wm_call list"
where
  "update observe winId updateInfo =
     WindowsUpdate winId updateInfo # checkWindowUpdated observe winId updateInfo 0"

text \<open>A request and the window a decorating window manager makes of it.\<close>

definition requestedBounds :: ChromeWindowUpdateInfo where
  "requestedBounds = noUpdate\<lparr>ui_left := Some 100, ui_top := Some 100, ui_width := Some 300,
                               ui_height := Some 200\<rparr>"

definition decorated :: "nat \<Rightarrow> ChromeWindow option" where
  "decorated i = Some \<lparr>win_id = 7, win_left = 103, win_top = 113, win_width = 300,
                        win_height = 200, win_state = ''normal'', win_focused = True\<rparr>"

fun isGet :: "wm_call \<Rightarrow> bool" where
  "isGet (WindowsGet j) = True"
| "isGet c = False"

fun isWrite :: "wm_call \<Rightarrow> bool" where
  "isWrite (WindowsUpdate j u) = True"
| "isWrite c = False"


section \<open>The wakeup queue\<close>

text \<open>
  A task of the queue is a closure that receives the completion signal \<open>finished\<close>.  What
  the queue can observe of a task is when the signal is invoked: inside the call of the
  task (\<open>Immediately\<close>), in a later turn (\<open>Later\<close>), or not at all (\<open>Never\<close>).  The
  \<open>label\<close> tells tasks apart.  \<open>Started\<close> records the call of a task and \<open>Finished\<close> the
  invocation of its completion signal.  \<open>wakeupFirst\<close>, \<open>wakeupNext\<close> and \<open>add\<close> take the
  queue \<open>queue_\<close> and return it with the records of the call.
\<close>

datatype completion = Immediately | Later | Never

record Task =
  label :: nat
  completes :: completion

datatype obs = Started Task | Finished Task

function (sequential) wakeupFirst :: "Task list \<Rightarrow> Task list \<times> obs list"
  and wakeupNext :: "Task list \<Rightarrow> Task list \<times> obs list"
where
  "wakeupFirst [] = ([], [])"
| "wakeupFirst (f # q) =
     (case completes f of
        Immediately \<Rightarrow> (let (q', os) = wakeupNext (f # q) in (q', Started f # os))
      | Later \<Rightarrow> (f # q, [Started f])
      | Never \<Rightarrow> (f # q, [Started f]))"
| "wakeupNext [] = wakeupFirst []"
| "wakeupNext (f # q) = (let (q', os) = wakeupFirst q in (q', Finished f # os))"
  by pat_completeness auto
termination
  by (relation "measure (\<lambda>x. case x of Inl q \<Rightarrow> 3 * length q
                                    | Inr q \<Rightarrow> if q = [] then 1 else 3 * length q - 1)")
    auto

definition add :: "Task list \<Rightarrow> Task \<Rightarrow> Task list \<times> obs list" where
  "add q func = (let q1 = q @ [func] in if length q1 = 1 then wakeupFirst q1 else (q1, []))"

definition isIdle :: "Task list \<Rightarrow> bool" where
  "isIdle q = (length q = 0)"

text \<open>
  The queue is driven by calls of \<open>add\<close> and by the running task invoking its completion
  signal in a later turn (\<open>Signal\<close>).  The running task is the first of the queue; the
  signal can come only from a task that completes \<open>Later\<close>, so \<open>step\<close> is \<open>None\<close> for a
  signal that no task can send.  \<open>run\<close> drives the queue through a list of events and
  collects the records; \<open>added\<close> lists the tasks the events add, in order.
\<close>

datatype event = Add Task | Signal

fun step :: "Task list \<Rightarrow> event \<Rightarrow> (Task list \<times> obs list) option" where
  "step q (Add func) = Some (add q func)"
| "step [] Signal = None"
| "step (f # q) Signal = (if completes f = Later then Some (wakeupNext (f # q)) else None)"

fun run :: "Task list \<Rightarrow> obs list \<Rightarrow> event list \<Rightarrow> (Task list \<times> obs list) option" where
  "run q tr [] = Some (q, tr)"
| "run q tr (e # es) =
     (case step q e of None \<Rightarrow> None | Some (q', os) \<Rightarrow> run q' (tr @ os) es)"

fun added :: "event list \<Rightarrow> Task list" where
  "added [] = []"
| "added (Add func # es) = func # added es"
| "added (Signal # es) = added es"

text \<open>
  The records of tasks that ran to completion one after the other, the record of the task
  at the head of the queue, and the tasks started and finished according to a list of
  records.
\<close>

definition pairs :: "Task list \<Rightarrow> obs list" where
  "pairs fs = concat (map (\<lambda>f. [Started f, Finished f]) fs)"

definition running :: "Task list \<Rightarrow> obs list" where
  "running q = (case q of [] \<Rightarrow> [] | f # r \<Rightarrow> [Started f])"

fun started :: "obs list \<Rightarrow> Task list" where
  "started [] = []"
| "started (Started f # tr) = f # started tr"
| "started (Finished f # tr) = started tr"

fun finished :: "obs list \<Rightarrow> Task list" where
  "finished [] = []"
| "finished (Started f # tr) = finished tr"
| "finished (Finished f # tr) = f # finished tr"

definition immediate :: "Task \<Rightarrow> bool" where
  "immediate f = (completes f = Immediately)"

definition queue_inv :: "Task list \<Rightarrow> Task list \<Rightarrow> obs list \<Rightarrow> bool" where
  "queue_inv fs q tr =
     (\<exists>c. c \<le> length fs \<and> q = drop c fs \<and> tr = pairs (take c fs) @ running q \<and>
          list_all (\<lambda>g. completes g \<noteq> Never) (take c fs) \<and>
          (case q of [] \<Rightarrow> True | f # r \<Rightarrow> completes f \<noteq> Immediately))"


section \<open>The message handler\<close>

text \<open>
  \<open>messageHandler_\<close> adds a task that builds the \<open>callback\<close>, which sends the response and
  then invokes the completion signal, and hands it to the operation that the \<open>switch\<close> on
  the \<open>request\<close> member selects (\<open>dispatch\<close>).  The operations call back in a later turn.
  When no case of the \<open>switch\<close> matches, nothing holds the callback.  A \<open>request\<close> member
  that is absent or not a string is \<open>None\<close>.
\<close>

definition MOVE_WINDOW :: string where "MOVE_WINDOW = ''moveWindow''"
definition EXTRACT_TAB :: string where "EXTRACT_TAB = ''extractTab''"
definition SWITCH_TO_NEXT_DESKTOP :: string where "SWITCH_TO_NEXT_DESKTOP = ''switchToNextDesktop''"
definition SWITCH_TO_PREVIOUS_DESKTOP :: string where
  "SWITCH_TO_PREVIOUS_DESKTOP = ''switchToPreviousDesktop''"
definition CURRENT_TO_NEXT_DESKTOP :: string where "CURRENT_TO_NEXT_DESKTOP = ''currentToNextDesktop''"
definition CURRENT_TO_PREVIOUS_DESKTOP :: string where
  "CURRENT_TO_PREVIOUS_DESKTOP = ''currentToPreviousDesktop''"

definition RequestType :: "string list" where
  "RequestType = [MOVE_WINDOW, EXTRACT_TAB, SWITCH_TO_NEXT_DESKTOP, SWITCH_TO_PREVIOUS_DESKTOP,
                  CURRENT_TO_NEXT_DESKTOP, CURRENT_TO_PREVIOUS_DESKTOP]"

record message =
  request :: "string option"
  fullscreen :: bool

datatype operation =
    MaximizeWindow | PositionWindow | MaximizeTab | PositionTab
  | SwitchToNext | SwitchToPrevious | CurrentToNext | CurrentToPrevious

definition dispatch :: "message \<Rightarrow> operation option" where
  "dispatch m =
     (if request m = Some MOVE_WINDOW
        then Some (if fullscreen m then MaximizeWindow else PositionWindow)
      else if request m = Some EXTRACT_TAB
        then Some (if fullscreen m then MaximizeTab else PositionTab)
      else if request m = Some SWITCH_TO_NEXT_DESKTOP then Some SwitchToNext
      else if request m = Some SWITCH_TO_PREVIOUS_DESKTOP then Some SwitchToPrevious
      else if request m = Some CURRENT_TO_NEXT_DESKTOP then Some CurrentToNext
      else if request m = Some CURRENT_TO_PREVIOUS_DESKTOP then Some CurrentToPrevious
      else None)"

definition handlerTask :: "nat \<Rightarrow> message \<Rightarrow> Task" where
  "handlerTask i m =
     \<lparr>label = i, completes = (case dispatch m of None \<Rightarrow> Never | Some operation \<Rightarrow> Later)\<rparr>"

definition messageHandler :: "Task list \<Rightarrow> nat \<Rightarrow> message \<Rightarrow> Task list \<times> obs list" where
  "messageHandler q i m = add q (handlerTask i m)"

text \<open>Concrete tasks and messages.\<close>

definition taskA :: Task where "taskA = \<lparr>label = 1, completes = Immediately\<rparr>"
definition taskB :: Task where "taskB = \<lparr>label = 2, completes = Later\<rparr>"
definition taskC :: Task where "taskC = \<lparr>label = 3, completes = Later\<rparr>"

definition unknownMessage :: message where
  "unknownMessage = \<lparr>request = Some ''closeWindow'', fullscreen = False\<rparr>"

definition nextDesktopMessage :: message where
  "nextDesktopMessage = \<lparr>request = Some SWITCH_TO_NEXT_DESKTOP, fullscreen = False\<rparr>"


section \<open>The barrier closure\<close>

text \<open>
  Modelled from the spec: the implementation of \<open>virtualdesktops.BarrierClosure\<close> is not
  among the sources; only its test and its use in \<open>applyWindowStates_\<close> are.  The state
  of a barrier is the count of pending signals (obtained by \<open>get()\<close> and not yet invoked),
  whether \<open>finalize()\<close> has been called, whether a continuation is registered, and how
  often the continuation has run.
\<close>

record BarrierClosure =
  pending :: nat
  finalized :: bool
  registered :: bool
  fired :: nat

definition newBarrier :: BarrierClosure where
  "newBarrier = \<lparr>pending = 0, finalized = False, registered = False, fired = 0\<rparr>"

text \<open>
  Modelled from the spec: the continuation runs once all obtained signals have fired and
  \<open>finalize()\<close> has been called, in either order.  \<open>settle\<close> runs the continuation when,
  after an operation, it is registered, the barrier is finalized and no signal is
  pending.
\<close>

definition settle :: "BarrierClosure \<Rightarrow> BarrierClosure" where
  "settle b = (if finalized b \<and> pending b = 0 \<and> registered b then b\<lparr>fired := fired b + 1\<rparr> else b)"

text \<open>
  Modelled from the spec: \<open>get()\<close> returns a new completion signal and increments the
  pending-signal count, and a call after \<open>finalize()\<close> is a programming error (\<open>None\<close>);
  the invocation of a signal (\<open>Fire j\<close> for the signal of the \<open>j\<close>-th call of \<open>get()\<close>)
  decrements the count; \<open>finalize()\<close> freezes the set of expected signals, and a second
  call is a misuse (\<open>None\<close>); \<open>then(continuation)\<close> registers the continuation, which runs
  at once if the condition already holds.
\<close>

datatype barrier_event = Get | Fire nat | Finalize | Then

fun barrier_step :: "BarrierClosure \<Rightarrow> barrier_event \<Rightarrow> BarrierClosure option" where
  "barrier_step b Get = (if finalized b then None else Some (b\<lparr>pending := pending b + 1\<rparr>))"
| "barrier_step b (Fire j) =
     (if pending b = 0 then None else Some (settle (b\<lparr>pending := pending b - 1\<rparr>)))"
| "barrier_step b Finalize = (if finalized b then None else Some (settle (b\<lparr>finalized := True\<rparr>)))"
| "barrier_step b Then = Some (settle (b\<lparr>registered := True\<rparr>))"

fun barrier_run :: "BarrierClosure \<Rightarrow> barrier_event list \<Rightarrow> BarrierClosure option" where
  "barrier_run b [] = Some b"
| "barrier_run b (e # es) = (case barrier_step b e of None \<Rightarrow> None | Some b' \<Rightarrow> barrier_run b' es)"

text \<open>
  The uses of a barrier that the contract admits: every call of \<open>get()\<close> comes before
  \<open>finalize()\<close>, a signal is invoked after it was obtained and at most once, and
  \<open>finalize()\<close> and \<open>then\<close> are each called at most once.  \<open>valid_from\<close> checks a list of
  events against the number of signals obtained, the signals invoked, and whether
  \<open>finalize()\<close> and \<open>then\<close> have been called.  \<open>gets\<close> counts the signals a list of events
  obtains and \<open>fires\<close> lists the signals it invokes.
\<close>

fun valid_from :: "nat \<Rightarrow> nat list \<Rightarrow> bool \<Rightarrow> bool \<Rightarrow> barrier_event list \<Rightarrow> bool" where
  "valid_from g fs fin th [] = True"
| "valid_from g fs fin th (Get # es) = (\<not> fin \<and> valid_from (Suc g) fs fin th es)"
| "valid_from g fs fin th (Fire j # es) = (j < g \<and> j \<notin> set fs \<and> valid_from g (j # fs) fin th es)"
| "valid_from g fs fin th (Finalize # es) = (\<not> fin \<and> valid_from g fs True th es)"
| "valid_from g fs fin th (Then # es) = (\<not> th \<and> valid_from g fs fin True es)"

definition valid :: "barrier_event list \<Rightarrow> bool" where
  "valid es = valid_from 0 [] False False es"

definition barrier_inv :: "nat \<Rightarrow> nat list \<Rightarrow> bool \<Rightarrow> bool \<Rightarrow> BarrierClosure \<Rightarrow> bool" where
  "barrier_inv g fs fin th b =
     (pending b + length fs = g \<and> finalized b = fin \<and> registered b = th \<and>
      distinct fs \<and> set fs \<subseteq> {..<g} \<and>
      fired b = (if fin \<and> th \<and> length fs = g then 1 else 0))"

fun gets :: "barrier_event list \<Rightarrow> nat" where
  "gets [] = 0"
| "gets (Get # es) = Suc (gets es)"
| "gets (e # es) = gets es"

fun fires :: "barrier_event list \<Rightarrow> nat list" where
  "fires [] = []"
| "fires (Fire j # es) = j # fires es"
| "fires (e # es) = fires es"


section \<open>Arithmetic of the wrap-around\<close>

lemma js_rem_nonneg: "0 \<le> a \<Longrightarrow> 0 < b \<Longrightarrow> js_rem a b = a mod b"
  by (cases "a = 0") (simp_all add: js_rem_def)

lemma js_rem_bounds: "0 < b \<Longrightarrow> - b < js_rem a b \<and> js_rem a b < b"
proof -
  assume b: "0 < b"
  have m: "0 \<le> \<bar>a\<bar> mod \<bar>b\<bar> \<and> \<bar>a\<bar> mod \<bar>b\<bar> < b"
    using b by simp
  show ?thesis
  proof (cases "a < 0")
    case True
    then have "js_rem a b = - (\<bar>a\<bar> mod \<bar>b\<bar>)" by (simp add: js_rem_def)
    with m b show ?thesis by linarith
  next
    case False
    then have "js_rem a b = a mod b" using b by (simp add: js_rem_nonneg)
    with b show ?thesis by (simp add: less_le_trans [of "- b" 0])
  qed
qed

lemma wrapDesktop_range: "1 \<le> n \<Longrightarrow> 0 \<le> wrapDesktop n r \<and> wrapDesktop n r < n"
proof -
  assume n: "1 \<le> n"
  then have pos: "0 < n" by simp
  from js_rem_bounds [OF pos, of "r + n"] have "0 \<le> js_rem (r + n) n + n" by simp
  then have "wrapDesktop n r = (js_rem (r + n) n + n) mod n"
    unfolding wrapDesktop_def using pos by (rule js_rem_nonneg)
  then show ?thesis using pos by simp
qed

lemma wrapDesktop_mod: "1 \<le> n \<Longrightarrow> wrapDesktop n r = r mod n"
proof -
  assume n: "1 \<le> n"
  then have pos: "0 < n" by simp
  from js_rem_bounds [OF pos, of "r + n"] have nn: "0 \<le> js_rem (r + n) n + n" by simp
  have w: "wrapDesktop n r = (js_rem (r + n) n + n) mod n"
    unfolding wrapDesktop_def using nn pos by (rule js_rem_nonneg)
  have "js_rem (r + n) n mod n = r mod n"
  proof (cases "r + n < 0")
    case True
    then have "js_rem (r + n) n = - ((- (r + n)) mod n)"
      using pos by (simp add: js_rem_def)
    then have "js_rem (r + n) n mod n = (- ((- (r + n)) mod n)) mod n" by simp
    also have "\<dots> = (- (- (r + n))) mod n" by (simp only: mod_minus_eq)
    also have "\<dots> = r mod n" by simp
    finally show ?thesis .
  next
    case False
    then have "js_rem (r + n) n = (r + n) mod n" using pos by (simp add: js_rem_nonneg)
    then show ?thesis by simp
  qed
  with w show ?thesis by simp
qed


section \<open>Claims about numberToDesktopId_ without the empty-desktop rule\<close>

lemma getDesktops_range: "1 \<le> getDesktops stored \<and> getDesktops stored \<le> 10"
  by (simp add: getDesktops_def clampDefault_def split: option.splits)

text \<open>
  Claim C1.  For every desktop count \<open>n \<ge> 1\<close>, every stored current desktop number and
  every requested number, \<open>numberToDesktopId_\<close> called with \<open>disallowEmpty = false\<close>
  returns, and its result is at least \<open>0\<close> and less than \<open>n\<close>.  The count that
  \<open>getDesktops\<close> reads from the settings is such a count, whatever is stored.
\<close>

theorem numberToDesktopId_in_range:
  assumes "1 \<le> n"
  shows "(\<exists>r. numberToDesktopId n this reqDesktop False = Some r \<and> 0 \<le> r \<and> r < n) \<and>
         (\<exists>r. numberToDesktopId (getDesktops stored) this reqDesktop False = Some r \<and>
              0 \<le> r \<and> r < getDesktops stored)"
proof -
  have range: "\<exists>r. numberToDesktopId m this reqDesktop False = Some r \<and> 0 \<le> r \<and> r < m"
    if m: "1 \<le> m" for m
  proof -
    obtain c q where cq: "clampCurrent m (currentDesktop this) reqDesktop = (c, q)"
      by (cases "clampCurrent m (currentDesktop this) reqDesktop")
    then have "numberToDesktopId m this reqDesktop False = Some (wrapDesktop m q)"
      by (simp add: numberToDesktopId_def)
    with wrapDesktop_range [OF m, of q] show ?thesis by simp
  qed
  have "1 \<le> getDesktops stored" using getDesktops_range by simp
  with range [OF assms] range [of "getDesktops stored"] show ?thesis by simp
qed

theorem numberToDesktopId_in_range_witness:
  "(1::int) \<le> 3 \<and>
   numberToDesktopId 3 \<lparr>currentDesktop = 4, windowStates = []\<rparr> (- 1) False = Some 2"
proof -
  have n: "(1::int) \<le> 3" by simp
  from conjunct1 [OF numberToDesktopId_in_range [OF n, of "\<lparr>currentDesktop = 4, windowStates = []\<rparr>" "- 1"]]
  obtain r where r: "numberToDesktopId 3 \<lparr>currentDesktop = 4, windowStates = []\<rparr> (- 1) False = Some r"
    by blast
  have "numberToDesktopId 3 \<lparr>currentDesktop = 4, windowStates = []\<rparr> (- 1) False = Some 2"
    by (simp add: numberToDesktopId_def clampCurrent_def wrapDesktop_def js_rem_def)
  with n r show ?thesis by simp
qed

lemma numberToDesktopId_False:
  "numberToDesktopId n this reqDesktop False =
     Some (wrapDesktop n (snd (clampCurrent n (currentDesktop this) reqDesktop)))"
  by (simp add: numberToDesktopId_def split: prod.splits)

text \<open>
  The table in the source of \<open>numberToDesktopId_\<close>: with the current desktop \<open>4\<close> and three
  desktops, the requests \<open>-1, 0, \<dots>, 7\<close> lead to \<open>2 0 1 2 2 2 0 1 2\<close>.
\<close>

lemma shrink_table:
  "map (\<lambda>r. numberToDesktopId 3 \<lparr>currentDesktop = 4, windowStates = states\<rparr> r False)
       [- 1, 0, 1, 2, 3, 4, 5, 6, 7]
   = map Some [2, 0, 1, 2, 2, 2, 0, 1, 2]"
  by (simp add: numberToDesktopId_False clampCurrent_def wrapDesktop_def js_rem_def)

text \<open>
  Claim C2, as the specification states it, says that with the current desktop \<open>4\<close> and
  three desktops a request for desktop \<open>5\<close> is normalized to \<open>2\<close>.  The code answers \<open>0\<close>:
  the request is moved left by the clamping amount \<open>4 - 2\<close>, which gives \<open>3\<close>, and \<open>3\<close> is
  then wrapped into the three desktops.
\<close>

theorem shrink_remap_counterexample:
  "numberToDesktopId 3 \<lparr>currentDesktop = 4, windowStates = []\<rparr> 5 False = Some 0 \<and>
   numberToDesktopId 3 \<lparr>currentDesktop = 4, windowStates = []\<rparr> 5 False \<noteq> Some 2"
  by (simp add: numberToDesktopId_False clampCurrent_def wrapDesktop_def js_rem_def)

text \<open>
  Claim C2, amended.  With the current desktop \<open>4\<close> and three desktops, a request for
  desktop \<open>5\<close> is normalized to \<open>0\<close> and a request for desktop \<open>3\<close> to \<open>2\<close>.  In general,
  when the current desktop number exceeds \<open>n - 1\<close>: a request greater than the current
  desktop number is moved left by the clamping amount and then wrapped into the \<open>n\<close>
  desktops; any other request greater than \<open>n - 1\<close> becomes \<open>n - 1\<close>; and a request of at
  most \<open>n - 1\<close> is only wrapped.
\<close>

theorem shrink_remap:
  "numberToDesktopId 3 \<lparr>currentDesktop = 4, windowStates = states\<rparr> 5 False = Some 0 \<and>
   numberToDesktopId 3 \<lparr>currentDesktop = 4, windowStates = states\<rparr> 3 False = Some 2 \<and>
   (1 \<le> n \<and> n - 1 < currentDesktop this \<longrightarrow>
      numberToDesktopId n this reqDesktop False =
        Some (if reqDesktop > currentDesktop this
              then (reqDesktop - (currentDesktop this - (n - 1))) mod n
              else if reqDesktop > n - 1 then n - 1
              else reqDesktop mod n))"
proof -
  have a: "numberToDesktopId 3 \<lparr>currentDesktop = 4, windowStates = states\<rparr> 5 False = Some 0"
    by (simp add: numberToDesktopId_False clampCurrent_def wrapDesktop_def js_rem_def)
  have b: "numberToDesktopId 3 \<lparr>currentDesktop = 4, windowStates = states\<rparr> 3 False = Some 2"
    by (simp add: numberToDesktopId_False clampCurrent_def wrapDesktop_def js_rem_def)
  have c: "numberToDesktopId n this reqDesktop False =
        Some (if reqDesktop > currentDesktop this
              then (reqDesktop - (currentDesktop this - (n - 1))) mod n
              else if reqDesktop > n - 1 then n - 1
              else reqDesktop mod n)"
    if n: "1 \<le> n" and cur: "n - 1 < currentDesktop this"
  proof -
    have "- 1 mod n = n - 1" using n by (simp add: zmod_minus1)
    then show ?thesis
      using n cur by (simp add: numberToDesktopId_False clampCurrent_def wrapDesktop_mod)
  qed
  from a b c show ?thesis by blast
qed

theorem shrink_remap_witness:
  "(1::int) \<le> 3 \<and> (3::int) - 1 < 4 \<and>
   numberToDesktopId 3 \<lparr>currentDesktop = 4, windowStates = []\<rparr> 7 False = Some 2"
  using shrink_remap [of "[]" 3 "\<lparr>currentDesktop = 4, windowStates = []\<rparr>" 7]
  by simp


section \<open>The refreshed window states\<close>

lemma updateWindowState_keys:
  "fst ` set (updateWindowState this w states) = insert (win_id w) (fst ` set states)"
  by (simp add: updateWindowState_def dom_update split: option.splits)

lemma updateWindowState_distinct:
  "distinct (map fst states) \<Longrightarrow> distinct (map fst (updateWindowState this w states))"
  by (simp add: updateWindowState_def distinct_update split: option.splits)

lemma fold_updateWindowState_keys:
  "fst ` set (fold (updateWindowState this) windows states) = win_id ` set windows \<union> fst ` set states"
  by (induction windows arbitrary: states) (auto simp: updateWindowState_keys)

lemma fold_updateWindowState_distinct:
  "distinct (map fst states) \<Longrightarrow> distinct (map fst (fold (updateWindowState this) windows states))"
  by (induction windows arbitrary: states) (auto simp: updateWindowState_distinct)

text \<open>
  Claim C9.  After \<open>updateWindowStates_\<close> has run on the queried list of windows, no window
  identifier has two remembered states, the identifiers with a remembered state are
  exactly the identifiers of the queried windows, and so an identifier has no remembered
  state exactly when no queried window carries it.
\<close>

theorem updateWindowStates_one_state_per_window:
  "distinct (map fst (windowStates (updateWindowStates this windows))) \<and>
   fst ` set (windowStates (updateWindowStates this windows)) = win_id ` set windows \<and>
   (map_of (windowStates (updateWindowStates this windows)) i = None) = (i \<notin> win_id ` set windows)"
proof -
  let ?s = "windowStates (updateWindowStates this windows)"
  have d: "distinct (map fst ?s)"
    by (simp add: updateWindowStates_def fold_updateWindowState_distinct)
  have k: "fst ` set ?s = win_id ` set windows"
    by (simp add: updateWindowStates_def fold_updateWindowState_keys)
  have "(map_of ?s i = None) = (i \<notin> fst ` set ?s)"
    by (simp add: map_of_eq_None_iff)
  with d k show ?thesis by simp
qed

section \<open>The empty-desktop rule of numberToDesktopId_\<close>

text \<open>\<open>Math.round\<close> of a quotient of integers, in integer arithmetic.\<close>

lemma Math_round_div:
  assumes "0 < n"
  shows "Math_round (real_of_int d / real_of_int n) = (2 * d + n) div (2 * n)"
proof -
  have "real_of_int d / real_of_int n + 1 / 2 = real_of_int (2 * d + n) / real_of_int (2 * n)"
    using assms by (simp add: field_simps)
  then show ?thesis
    unfolding Math_round_def by (simp only: floor_divide_of_int_eq)
qed

lemma mapDirection_div:
  "0 < n \<Longrightarrow> mapDirection n d = d - n * ((2 * d + n) div (2 * n))"
  by (simp add: mapDirection_def Math_round_div)

lemma mapDirection_range:
  assumes "0 < n"
  shows "- n \<le> 2 * mapDirection n d \<and> 2 * mapDirection n d < n \<and> (mapDirection n d - d) mod n = 0"
proof -
  let ?q = "(2 * d + n) div (2 * n)" and ?r = "(2 * d + n) mod (2 * n)"
  have r: "0 \<le> ?r \<and> ?r < 2 * n" using assms by simp
  have "2 * d + n = 2 * n * ?q + ?r" by simp
  then have "2 * (d - n * ?q) = ?r - n" by (simp add: algebra_simps)
  with r have "- n \<le> 2 * (d - n * ?q) \<and> 2 * (d - n * ?q) < n" by linarith
  moreover have "(d - n * ?q - d) mod n = 0" by simp
  ultimately show ?thesis using assms by (simp add: mapDirection_div)
qed

lemma countWindow_hasWindows:
  "hasWindows (countWindow states k cnt) d =
     (hasWindows cnt d \<or>
      (\<exists>s. map_of states k = Some s \<and> ws_desktop s = d \<and> ws_state s \<noteq> MINIMIZED_STATE))"
  by (auto simp: countWindow_def hasWindows_def split: option.splits)

lemma fold_countWindow_hasWindows:
  "hasWindows (fold (countWindow states) ks cnt) d =
     (hasWindows cnt d \<or>
      (\<exists>k\<in>set ks. \<exists>s. map_of states k = Some s \<and> ws_desktop s = d \<and> ws_state s \<noteq> MINIMIZED_STATE))"
  by (induction ks arbitrary: cnt) (auto simp: countWindow_hasWindows)

lemma hasWindows_nWindowsOnDesktop:
  "hasWindows (nWindowsOnDesktop states) d =
     (\<exists>k s. map_of states k = Some s \<and> ws_desktop s = d \<and> ws_state s \<noteq> MINIMIZED_STATE)"
proof -
  have key: "k \<in> set (map fst states)" if "map_of states k = Some s" for k s
    using that by (metis map_of_eq_None_iff option.distinct(1) set_map)
  have "\<not> hasWindows Map.empty d" by (simp add: hasWindows_def)
  then have "hasWindows (nWindowsOnDesktop states) d =
      (\<exists>k\<in>set (map fst states). \<exists>s. map_of states k = Some s \<and> ws_desktop s = d \<and>
          ws_state s \<noteq> MINIMIZED_STATE)"
    unfolding nWindowsOnDesktop_def fold_countWindow_hasWindows by simp
  also have "\<dots> = (\<exists>k s. map_of states k = Some s \<and> ws_desktop s = d \<and> ws_state s \<noteq> MINIMIZED_STATE)"
    using key by blast
  finally show ?thesis .
qed

lemma js_rem_step:
  assumes "1 \<le> n" "0 \<le> w" "dir = 1 \<or> dir = - 1"
  shows "js_rem (w + dir + n) n = (w + dir) mod n"
proof -
  have "0 \<le> w + dir + n" using assms by auto
  then have "js_rem (w + dir + n) n = (w + dir + n) mod n"
    using assms by (simp add: js_rem_nonneg)
  then show ?thesis by simp
qed


lemma skipEmpty_search:
  assumes n: "1 \<le> n" and dir: "dir = 1 \<or> dir = - 1" and cc: "0 \<le> cc" "cc < n"
  shows "0 \<le> w \<Longrightarrow> w < n \<Longrightarrow>
    \<exists>k r. skipEmpty cnt n dir cc w = Some r \<and> r = (w + int k * dir) mod n \<and>
      (\<forall>j<k. \<not> hasWindows cnt ((w + int j * dir) mod n)) \<and>
      (\<forall>j. 0 < j \<and> j < k \<longrightarrow> (w + int j * dir) mod n \<noteq> cc) \<and>
      (hasWindows cnt r \<or> (0 < k \<and> r = cc))"
proof (induction "nat (if dir = 1 then (if w < cc then cc - w - 1 else cc - w - 1 + n)
                      else (if cc < w then w - cc - 1 else w - cc - 1 + n))"
       arbitrary: w rule: less_induct)
  case less
  note w = \<open>0 \<le> w\<close> \<open>w < n\<close>
  have wmod: "w mod n = w" using w by simp
  show ?case
  proof (cases "hasWindows cnt w")
    case True
    then have "skipEmpty cnt n dir cc w = Some w"
      by (subst skipEmpty.simps) simp
    with True wmod have "skipEmpty cnt n dir cc w = Some w \<and> w = (w + int 0 * dir) mod n \<and>
      (\<forall>j<0::nat. \<not> hasWindows cnt ((w + int j * dir) mod n)) \<and>
      (\<forall>j. 0 < j \<and> j < (0::nat) \<longrightarrow> (w + int j * dir) mod n \<noteq> cc) \<and>
      (hasWindows cnt w \<or> (0 < (0::nat) \<and> w = cc))"
      by simp
    then show ?thesis by blast
  next
    case False
    define r1 where "r1 = (w + dir) mod n"
    have step: "js_rem (w + dir + n) n = r1"
      unfolding r1_def using n w(1) dir by (rule js_rem_step)
    have r1: "0 \<le> r1" "r1 < n" using n by (simp_all add: r1_def)
    have r1_cases: "r1 = (if dir = 1 then (if w + 1 = n then 0 else w + 1)
                          else (if w = 0 then n - 1 else w - 1))"
    proof (cases "dir = 1")
      case True
      then show ?thesis using w by (simp add: r1_def)
    next
      case False
      with dir have "dir = - 1" by simp
      then show ?thesis using w by (simp add: r1_def zmod_minus1)
    qed
    show ?thesis
    proof (cases "r1 = cc")
      case True
      have "skipEmpty cnt n dir cc w = Some cc"
        using False True step by (subst skipEmpty.simps) simp
      moreover have "cc = (w + int 1 * dir) mod n" using True by (simp add: r1_def)
      moreover have "\<forall>j<1::nat. \<not> hasWindows cnt ((w + int j * dir) mod n)"
        using False wmod by simp
      moreover have "\<forall>j. 0 < j \<and> j < (1::nat) \<longrightarrow> (w + int j * dir) mod n \<noteq> cc" by auto
      ultimately have "skipEmpty cnt n dir cc w = Some cc \<and> cc = (w + int 1 * dir) mod n \<and>
        (\<forall>j<1::nat. \<not> hasWindows cnt ((w + int j * dir) mod n)) \<and>
        (\<forall>j. 0 < j \<and> j < (1::nat) \<longrightarrow> (w + int j * dir) mod n \<noteq> cc) \<and>
        (hasWindows cnt cc \<or> (0 < (1::nat) \<and> cc = cc))"
        by simp
      then show ?thesis by blast
    next
      case neq: False
      have unfold: "skipEmpty cnt n dir cc w = skipEmpty cnt n dir cc r1"
        using False neq step by (subst skipEmpty.simps) simp
      have less: "nat (if dir = 1 then (if r1 < cc then cc - r1 - 1 else cc - r1 - 1 + n)
                      else (if cc < r1 then r1 - cc - 1 else r1 - cc - 1 + n))
                < nat (if dir = 1 then (if w < cc then cc - w - 1 else cc - w - 1 + n)
                      else (if cc < w then w - cc - 1 else w - cc - 1 + n))"
      proof (cases "dir = 1")
        case True
        then have "r1 = (if w + 1 = n then 0 else w + 1)" using r1_cases by simp
        with True w cc neq show ?thesis by (simp split: if_splits)
      next
        case False
        with dir have m: "dir = - 1" by simp
        then have "r1 = (if w = 0 then n - 1 else w - 1)" using r1_cases by simp
        with m w cc neq show ?thesis by (simp split: if_splits)
      qed
      from less.hyps [OF less r1] obtain k r where
        res: "skipEmpty cnt n dir cc r1 = Some r" and
        pos: "r = (r1 + int k * dir) mod n" and
        emp: "\<forall>j<k. \<not> hasWindows cnt ((r1 + int j * dir) mod n)" and
        ncc: "\<forall>j. 0 < j \<and> j < k \<longrightarrow> (r1 + int j * dir) mod n \<noteq> cc" and
        fin: "hasWindows cnt r \<or> (0 < k \<and> r = cc)"
        by blast
      have shift: "(r1 + int j * dir) mod n = (w + int (Suc j) * dir) mod n" for j
      proof -
        have "(r1 + int j * dir) mod n = (w + dir + int j * dir) mod n"
          unfolding r1_def by (rule mod_add_left_eq)
        also have "w + dir + int j * dir = w + int (Suc j) * dir" by (simp add: algebra_simps)
        finally show ?thesis .
      qed
      have a: "r = (w + int (Suc k) * dir) mod n" using pos shift by simp
      have b: "\<forall>j<Suc k. \<not> hasWindows cnt ((w + int j * dir) mod n)"
      proof (intro allI impI)
        fix j assume "j < Suc k"
        show "\<not> hasWindows cnt ((w + int j * dir) mod n)"
        proof (cases j)
          case 0
          then show ?thesis using False wmod by simp
        next
          case (Suc i)
          with \<open>j < Suc k\<close> have "i < k" by simp
          with emp have "\<not> hasWindows cnt ((r1 + int i * dir) mod n)" by blast
          then show ?thesis unfolding shift Suc .
        qed
      qed
      have c: "\<forall>j. 0 < j \<and> j < Suc k \<longrightarrow> (w + int j * dir) mod n \<noteq> cc"
      proof (intro allI impI)
        fix j assume j: "0 < j \<and> j < Suc k"
        then obtain i where i: "j = Suc i" by (cases j) auto
        show "(w + int j * dir) mod n \<noteq> cc"
        proof (cases i)
          case 0
          have "(w + int (Suc 0) * dir) mod n = r1" by (simp add: r1_def)
          then show ?thesis using neq i 0 by simp
        next
          case (Suc i')
          with i j have "0 < i \<and> i < k" by simp
          with ncc have "(r1 + int i * dir) mod n \<noteq> cc" by blast
          then show ?thesis unfolding shift i .
        qed
      qed
      have d: "hasWindows cnt r \<or> (0 < Suc k \<and> r = cc)" using fin by auto
      from unfold res have e: "skipEmpty cnt n dir cc w = Some r" by simp
      show ?thesis
        by (rule exI [of _ "Suc k"], rule exI [of _ r]) (intro conjI e a b c d)
    qed
  qed
qed

lemma normalWindow_state:
  "ws_state (normalWindow d) \<noteq> MINIMIZED_STATE" "ws_desktop (normalWindow d) = d"
  by (simp_all add: normalWindow_def MINIMIZED_STATE_def)

lemma numberToDesktopId_True:
  "numberToDesktopId n this reqDesktop True =
     (let cc = min (currentDesktop this) (n - 1);
          w = wrapDesktop n (snd (clampCurrent n (currentDesktop this) reqDesktop))
      in skipEmpty (nWindowsOnDesktop (windowStates this)) n (adjustDirection n w cc) cc w)"
  by (simp add: numberToDesktopId_def clampCurrent_def Let_def split: prod.splits)

lemma adjustDirection_cases: "adjustDirection n w cc = 1 \<or> adjustDirection n w cc = - 1"
  by (simp add: adjustDirection_def)

lemma threeDesktops_count:
  "hasWindows (nWindowsOnDesktop (windowStates threeDesktops)) d = (d = 0 \<or> d = 2)"
  by (simp add: nWindowsOnDesktop_def threeDesktops_def countWindow_def normalWindow_state hasWindows_def)

lemma tieDesktops_count:
  "hasWindows (nWindowsOnDesktop (windowStates tieDesktops)) d = (d = 0 \<or> d = 1 \<or> d = 3)"
  by (simp add: nWindowsOnDesktop_def tieDesktops_def countWindow_def normalWindow_state hasWindows_def)

lemma skipEmpty_found:
  "hasWindows cnt r \<Longrightarrow> skipEmpty cnt n dir cc r = Some r"
  by (subst skipEmpty.simps) simp

lemma skipEmpty_back:
  "\<not> hasWindows cnt r \<Longrightarrow> js_rem (r + dir + n) n = cc \<Longrightarrow> skipEmpty cnt n dir cc r = Some cc"
  by (subst skipEmpty.simps) simp

lemma skipEmpty_next:
  "\<not> hasWindows cnt r \<Longrightarrow> js_rem (r + dir + n) n \<noteq> cc \<Longrightarrow>
   skipEmpty cnt n dir cc r = skipEmpty cnt n dir cc (js_rem (r + dir + n) n)"
  by (subst skipEmpty.simps) simp

lemma threeDesktops_example: "numberToDesktopId 3 threeDesktops 1 True = Some 2"
proof -
  have cur: "currentDesktop threeDesktops = 0" by (simp add: threeDesktops_def)
  have dir: "adjustDirection 3 1 0 = 1" by (simp add: adjustDirection_def mapDirection_div)
  show ?thesis
    by (simp add: numberToDesktopId_True cur clampCurrent_def wrapDesktop_def js_rem_def dir
        skipEmpty_found skipEmpty_next threeDesktops_count)
qed

text \<open>
  The interval of the specification: \<open>spec_direction\<close> is the sign of the representative
  of the difference that lies above \<open>-n/2\<close> and at most at \<open>n/2\<close>.
\<close>

lemma spec_direction_interval:
  assumes "0 < n"
  shows "\<exists>d. - n < 2 * d \<and> 2 * d \<le> n \<and> (d - (requested - clampedCurrent)) mod n = 0 \<and>
             spec_direction n requested clampedCurrent = (if d = 0 then - 1 else sgn d)"
proof -
  let ?m = "(requested - clampedCurrent) mod n"
  let ?d = "if n < 2 * ?m then ?m - n else ?m"
  have m: "0 \<le> ?m \<and> ?m < n" using assms by simp
  then have r: "- n < 2 * ?d \<and> 2 * ?d \<le> n" by (simp split: if_splits)
  moreover have "(?d - (requested - clampedCurrent)) mod n = 0"
  proof -
    let ?x = "requested - clampedCurrent"
    have "n dvd ?x - ?m" by (rule dvd_minus_mod)
    then have "n dvd - (?x - ?m)" by (simp only: dvd_minus_iff)
    then have dv: "n dvd ?m - ?x" by simp
    then have "n dvd ?m - ?x - n" by (simp add: dvd_diff)
    then have "n dvd ?m - n - ?x" by (simp add: algebra_simps)
    with dv have "n dvd ?d - ?x" by simp
    then show ?thesis by (simp only: mod_eq_0_iff_dvd)
  qed
  moreover have "spec_direction n requested clampedCurrent = (if ?d = 0 then - 1 else sgn ?d)"
    by (simp add: spec_direction_def Let_def)
  ultimately show ?thesis by (intro exI [of _ ?d]) (simp only: simp_thms)
qed

text \<open>
  Claim C3, as the specification states it, maps the difference into the interval from
  \<open>-n/2\<close> (excluded) to \<open>n/2\<close> (included).  With four desktops, the current desktop \<open>0\<close>
  and a request for desktop \<open>2\<close> the difference is \<open>2 = n/2\<close>: the specification's direction
  is forwards, and skipping the empty desktop \<open>2\<close> forwards leads to desktop \<open>3\<close>.  The
  code rounds \<open>2/4\<close> up to \<open>1\<close>, maps the difference to \<open>-2\<close>, moves backwards and answers
  desktop \<open>1\<close>.
\<close>

theorem direction_tie_counterexample:
  "numberToDesktopId 4 tieDesktops 2 False = Some 2 \<and>
   adjustDirection 4 2 0 = - 1 \<and> spec_direction 4 2 0 = 1 \<and>
   numberToDesktopId 4 tieDesktops 2 True = Some 1 \<and>
   spec_normalizeDesktopIndex 4 tieDesktops 2 = Some 3"
proof -
  have cur: "currentDesktop tieDesktops = 0" by (simp add: tieDesktops_def)
  have a: "numberToDesktopId 4 tieDesktops 2 False = Some 2"
    by (simp add: numberToDesktopId_False clampCurrent_def wrapDesktop_def js_rem_def cur)
  have b: "adjustDirection 4 2 0 = - 1"
    by (simp add: adjustDirection_def mapDirection_div)
  have c: "spec_direction 4 2 0 = 1"
    by (simp add: spec_direction_def)
  have d: "numberToDesktopId 4 tieDesktops 2 True = Some 1"
    by (simp add: numberToDesktopId_True cur clampCurrent_def wrapDesktop_def js_rem_def b
        skipEmpty_found skipEmpty_next tieDesktops_count)
  have e: "spec_normalizeDesktopIndex 4 tieDesktops 2 = Some 3"
    by (simp add: spec_normalizeDesktopIndex_def cur clampCurrent_def c js_rem_def
        skipEmpty_found skipEmpty_next tieDesktops_count)
  from a b c d e show ?thesis by simp
qed

text \<open>
  Claim C3, amended.  Let \<open>n \<ge> 1\<close> be the desktop count, let the stored current desktop
  number be non-negative, let \<open>cc\<close> be the clamped current desktop and \<open>w\<close> the wrapped
  request (the result of the call with \<open>disallowEmpty = false\<close>).  Then

  \<^item> the direction is \<open>-1\<close> when the representative \<open>m\<close> of the difference \<open>w - cc\<close> modulo
    \<open>n\<close> with \<open>-n/2 \<le> m < n/2\<close> is at most \<open>0\<close>, and \<open>+1\<close> otherwise: a difference of zero
    and a difference of exactly \<open>n/2\<close> both move backwards;
  \<^item> the test of the loop holds for a desktop exactly when a remembered window that is
    not minimized is on it;
  \<^item> the call with \<open>disallowEmpty = true\<close> returns the desktop \<open>k\<close> steps from \<open>w\<close> in that
    direction, with wrap-around, where every desktop passed before is without such a
    window, no step before the last has come back to \<open>cc\<close>, and the desktop reached
    has such a window or is \<open>cc\<close>, reached by a step;
  \<^item> with one normal window on desktop \<open>0\<close>, none on desktop \<open>1\<close>, one normal window on
    desktop \<open>2\<close> and the current desktop \<open>0\<close>, a request for desktop \<open>1\<close> yields desktop \<open>2\<close>.
\<close>

theorem numberToDesktopId_skips_empty:
  assumes n: "1 \<le> n" and cur: "0 \<le> currentDesktop this"
    and cc: "cc = min (currentDesktop this) (n - 1)"
    and w: "numberToDesktopId n this reqDesktop False = Some w"
    and dir: "dir = adjustDirection n w cc"
    and cnt: "cnt = nWindowsOnDesktop (windowStates this)"
  shows "(\<exists>m. - n \<le> 2 * m \<and> 2 * m < n \<and> (m - (w - cc)) mod n = 0 \<and>
              dir = (if m \<le> 0 then - 1 else 1)) \<and>
         (\<forall>d. hasWindows cnt d =
              (\<exists>i s. map_of (windowStates this) i = Some s \<and> ws_desktop s = d \<and>
                     ws_state s \<noteq> MINIMIZED_STATE)) \<and>
         (\<exists>k r. numberToDesktopId n this reqDesktop True = Some r \<and>
              r = (w + int k * dir) mod n \<and>
              (\<forall>j<k. \<not> hasWindows cnt ((w + int j * dir) mod n)) \<and>
              (\<forall>j. 0 < j \<and> j < k \<longrightarrow> (w + int j * dir) mod n \<noteq> cc) \<and>
              (hasWindows cnt r \<or> (0 < k \<and> r = cc))) \<and>
         numberToDesktopId 3 threeDesktops 1 True = Some 2"
proof -
  have pos: "0 < n" using n by simp
  have weq: "w = wrapDesktop n (snd (clampCurrent n (currentDesktop this) reqDesktop))"
    using w by (simp add: numberToDesktopId_False)
  have wr: "0 \<le> w" "w < n"
    using wrapDesktop_range [OF n] weq by simp_all
  have ccr: "0 \<le> cc" "cc < n" using n cur cc by simp_all
  have a: "\<exists>m. - n \<le> 2 * m \<and> 2 * m < n \<and> (m - (w - cc)) mod n = 0 \<and>
              dir = (if m \<le> 0 then - 1 else 1)"
    using mapDirection_range [OF pos, of "w - cc"] dir
    by (intro exI [of _ "mapDirection n (w - cc)"]) (simp add: adjustDirection_def)
  have b: "\<forall>d. hasWindows cnt d =
              (\<exists>i s. map_of (windowStates this) i = Some s \<and> ws_desktop s = d \<and>
                     ws_state s \<noteq> MINIMIZED_STATE)"
    unfolding cnt by (simp add: hasWindows_nWindowsOnDesktop)
  have d1: "dir = 1 \<or> dir = - 1" using dir adjustDirection_cases by simp
  have run: "numberToDesktopId n this reqDesktop True = skipEmpty cnt n dir cc w"
    by (simp add: numberToDesktopId_True Let_def cc [symmetric] weq [symmetric] dir cnt)
  have c: "\<exists>k r. numberToDesktopId n this reqDesktop True = Some r \<and>
              r = (w + int k * dir) mod n \<and>
              (\<forall>j<k. \<not> hasWindows cnt ((w + int j * dir) mod n)) \<and>
              (\<forall>j. 0 < j \<and> j < k \<longrightarrow> (w + int j * dir) mod n \<noteq> cc) \<and>
              (hasWindows cnt r \<or> (0 < k \<and> r = cc))"
    unfolding run using skipEmpty_search [OF n d1 ccr wr] .
  from a b c threeDesktops_example show ?thesis by (intro conjI)
qed

theorem numberToDesktopId_skips_empty_witness:
  "(1::int) \<le> 3 \<and> 0 \<le> currentDesktop threeDesktops \<and>
   min (currentDesktop threeDesktops) (3 - 1) = 0 \<and>
   numberToDesktopId 3 threeDesktops 1 False = Some 1 \<and>
   adjustDirection 3 1 0 = 1 \<and>
   (\<exists>r. numberToDesktopId 3 threeDesktops 1 True = Some r \<and>
        (hasWindows (nWindowsOnDesktop (windowStates threeDesktops)) r \<or> r = 0))"
proof -
  have n: "(1::int) \<le> 3" by simp
  have cur: "0 \<le> currentDesktop threeDesktops" by (simp add: threeDesktops_def)
  have cc: "(0::int) = min (currentDesktop threeDesktops) (3 - 1)" by (simp add: threeDesktops_def)
  have w: "numberToDesktopId 3 threeDesktops 1 False = Some 1"
    by (simp add: numberToDesktopId_False clampCurrent_def wrapDesktop_def js_rem_def threeDesktops_def)
  have dir: "(1::int) = adjustDirection 3 1 0"
    by (simp add: adjustDirection_def mapDirection_div)
  note inst = numberToDesktopId_skips_empty [OF n cur cc w dir refl]
  from conjunct1 [OF conjunct2 [OF conjunct2 [OF inst]]]
  obtain k r where found:
    "numberToDesktopId 3 threeDesktops 1 True = Some r \<and>
     r = (1 + int k * 1) mod 3 \<and>
     (\<forall>j<k. \<not> hasWindows (nWindowsOnDesktop (windowStates threeDesktops)) ((1 + int j * 1) mod 3)) \<and>
     (\<forall>j. 0 < j \<and> j < k \<longrightarrow> (1 + int j * 1) mod 3 \<noteq> 0) \<and>
     (hasWindows (nWindowsOnDesktop (windowStates threeDesktops)) r \<or> (0 < k \<and> r = 0))"
    by (elim exE) (rule that)
  have res: "numberToDesktopId 3 threeDesktops 1 True = Some r"
    by (rule conjunct1 [OF found])
  have "hasWindows (nWindowsOnDesktop (windowStates threeDesktops)) r \<or> (0 < k \<and> r = 0)"
    by (rule conjunct2 [OF conjunct2 [OF conjunct2 [OF conjunct2 [OF found]]]])
  then have "hasWindows (nWindowsOnDesktop (windowStates threeDesktops)) r \<or> r = 0"
    by (elim disjE conjE) (rule disjI1, assumption, rule disjI2, assumption)
  with res have "\<exists>r. numberToDesktopId 3 threeDesktops 1 True = Some r \<and>
        (hasWindows (nWindowsOnDesktop (windowStates threeDesktops)) r \<or> r = 0)"
    by (intro exI [of _ r] conjI)
  with n cur cc [symmetric] w dir [symmetric] show ?thesis by (intro conjI)
qed

section \<open>switchToDesktop\<close>

text \<open>
  With at least one desktop and a non-negative stored desktop number,
  \<open>numberToDesktopId_\<close> returns in both modes, and its result is a valid desktop.
\<close>

lemma numberToDesktopId_total:
  assumes n: "1 \<le> n" and cur: "0 \<le> currentDesktop this"
  shows "\<exists>r. numberToDesktopId n this reqDesktop b = Some r \<and> 0 \<le> r \<and> r < n"
proof (cases b)
  case False
  let ?w = "wrapDesktop n (snd (clampCurrent n (currentDesktop this) reqDesktop))"
  have "numberToDesktopId n this reqDesktop b = Some ?w"
    using False by (simp add: numberToDesktopId_False)
  with wrapDesktop_range [OF n, of "snd (clampCurrent n (currentDesktop this) reqDesktop)"]
  show ?thesis by simp
next
  case True
  let ?cc = "min (currentDesktop this) (n - 1)"
  let ?w = "wrapDesktop n (snd (clampCurrent n (currentDesktop this) reqDesktop))"
  let ?dir = "adjustDirection n ?w ?cc"
  have cc: "0 \<le> ?cc" "?cc < n" using n cur by simp_all
  have w: "0 \<le> ?w" "?w < n" using wrapDesktop_range [OF n] by simp_all
  have dir: "?dir = 1 \<or> ?dir = - 1" by (rule adjustDirection_cases)
  from skipEmpty_search [OF n dir cc w, where cnt = "nWindowsOnDesktop (windowStates this)"]
  obtain k r where r: "skipEmpty (nWindowsOnDesktop (windowStates this)) n ?dir ?cc ?w = Some r"
    and m: "r = (?w + int k * ?dir) mod n"
    by (elim exE conjE) (rule that)
  have "0 \<le> r \<and> r < n" using n unfolding m by simp
  moreover have "numberToDesktopId n this reqDesktop b = Some r"
    using True r by (simp add: numberToDesktopId_True Let_def)
  ultimately show ?thesis by simp
qed

lemma forEach_Inr:
  "(\<And>w. w \<in> set ws \<Longrightarrow> \<exists>cs. body w = Inr cs) \<Longrightarrow> \<exists>cs. forEach body ws = Inr cs"
proof (induction ws)
  case Nil
  show ?case by simp
next
  case (Cons a ws)
  from Cons.prems [of a] obtain cs where a: "body a = Inr cs" by auto
  from Cons.IH Cons.prems obtain ds where ds: "forEach body ws = Inr ds" by auto
  from a ds show ?case by simp
qed

lemma applyWindowStates_Inr:
  assumes "\<And>w. w \<in> set windows \<Longrightarrow> map_of (windowStates this) (win_id w) \<noteq> None"
  shows "\<exists>cs. applyWindowStates this windows focusedWinId = Inr cs"
proof -
  have "\<exists>cs. restoreState this w = Inr cs" if "w \<in> set windows" for w
    using assms [OF that] by (auto simp: restoreState_def)
  then obtain states where s: "forEach (restoreState this) windows = Inr states"
    using forEach_Inr [of windows "restoreState this"] by blast
  have "\<exists>cs. restoreBounds this focusedWinId w = Inr cs" if "w \<in> set windows" for w
    using assms [OF that] by (auto simp: restoreBounds_def)
  then obtain bounds where b: "forEach (restoreBounds this focusedWinId) windows = Inr bounds"
    using forEach_Inr [of windows "restoreBounds this focusedWinId"] by blast
  from s b show ?thesis by (simp add: applyWindowStates_def)
qed

lemma sendWindow_currentDesktop [simp]:
  "currentDesktop (sendWindow this focusedWinId d) = currentDesktop this"
  by (simp add: sendWindow_def split: winref.splits option.splits)

lemma sendWindow_keys:
  "fst ` set (windowStates (sendWindow this focusedWinId d)) = fst ` set (windowStates this)"
proof -
  have "insert j (fst ` set al) = fst ` set al" if "map_of al j = Some s" for j s and al :: "(int \<times> WindowState) list"
    using that by (metis insert_absorb map_of_eq_None_iff option.distinct(1))
  then show ?thesis
    by (simp add: sendWindow_def dom_update split: winref.splits option.splits)
qed

lemma updateWindowStates_currentDesktop [simp]:
  "currentDesktop (updateWindowStates this windows) = currentDesktop this"
  by (simp add: updateWindowStates_def)

lemma known_after_refresh:
  assumes "w \<in> set windows"
  shows "map_of (windowStates (if sendToDesktop
            then sendWindow (updateWindowStates this windows) focusedWinId d
            else updateWindowStates this windows)) (win_id w) \<noteq> None"
proof -
  have "win_id w \<in> fst ` set (windowStates (updateWindowStates this windows))"
    using assms by (simp add: updateWindowStates_def fold_updateWindowState_keys)
  then show ?thesis
    by (simp add: map_of_eq_None_iff sendWindow_keys)
qed

lemma liveWindow_simps [simp]:
  "win_id (liveWindow i st) = i" "win_state (liveWindow i st) = st"
  "win_left (liveWindow i st) = 0" "win_top (liveWindow i st) = 0"
  "win_width (liveWindow i st) = 640" "win_height (liveWindow i st) = 480"
  by (simp_all add: liveWindow_def)

lemma same_desktop_example:
  "switchToDesktop 3 True threeDesktops [liveWindow 1 ''normal'', liveWindow 2 ''minimized''] 0
     (WinId 1) False
   = Some (Inr (\<lparr>currentDesktop = 0, windowStates = [(1, normalWindow 0), (2, normalWindow 2)]\<rparr>,
        [GetAll, OnChange 0, SaveState 0 [(1, normalWindow 0), (2, normalWindow 2)], Callback]))"
proof -
  let ?windows = "[liveWindow 1 ''normal'', liveWindow 2 ''minimized'']"
  let ?states = "[(1, normalWindow 0), (2, normalWindow 2)]"
  have u: "updateWindowStates threeDesktops ?windows = \<lparr>currentDesktop = 0, windowStates = ?states\<rparr>"
    by (simp add: updateWindowStates_def updateWindowState_def threeDesktops_def currentStateOf_def
        normalWindow_def MINIMIZED_STATE_def)
  have t: "\<lparr>currentDesktop = 0, windowStates = ?states\<rparr> = threeDesktops"
    by (simp add: threeDesktops_def)
  have cur: "currentDesktop threeDesktops = 0" by (simp add: threeDesktops_def)
  have ws: "windowStates threeDesktops = ?states" by (simp add: threeDesktops_def)
  have a: "numberToDesktopId 3 threeDesktops 0 False = Some 0"
    by (simp add: numberToDesktopId_False cur clampCurrent_def wrapDesktop_def js_rem_def)
  have dir: "adjustDirection 3 0 0 = - 1" by (simp add: adjustDirection_def mapDirection_div)
  have b: "numberToDesktopId 3 threeDesktops 0 True = Some 0"
    by (simp add: numberToDesktopId_True cur clampCurrent_def wrapDesktop_def js_rem_def dir
        skipEmpty_found threeDesktops_count)
  show ?thesis
    unfolding switchToDesktop_def u t Let_def a option.case if_False b
    by (simp add: cur ws)
qed

text \<open>
  Claim C6.  With at least one desktop and a non-negative stored desktop number, every
  call of \<open>switchToDesktop\<close> returns without throwing.  When the new current desktop is
  the previous one, the calls made are the query for all windows, the change
  notification, the saving of the state and the callback: no window is updated and the
  callback is invoked exactly once.
\<close>

theorem switchToDesktop_same_desktop:
  assumes n: "1 \<le> n" and cur: "0 \<le> currentDesktop this"
  shows "\<exists>this' calls.
           switchToDesktop n disallowEmptyDesktops this windows desktop focusedWinId sendToDesktop
             = Some (Inr (this', calls)) \<and>
           (currentDesktop this' = currentDesktop this \<longrightarrow>
              calls = [GetAll, OnChange (currentDesktop this),
                       SaveState (currentDesktop this) (windowStates this'), Callback] \<and>
              (\<forall>i u. Update i u \<notin> set calls) \<and> count_list calls Callback = 1)"
proof -
  let ?this1 = "updateWindowStates this windows"
  have cur1: "0 \<le> currentDesktop ?this1" using cur by simp
  from numberToDesktopId_total [OF n cur1, of desktop False]
  obtain desktop1 where d1: "numberToDesktopId n ?this1 desktop False = Some desktop1" by blast
  let ?this2 = "if sendToDesktop then sendWindow ?this1 focusedWinId desktop1 else ?this1"
  have cur2: "currentDesktop ?this2 = currentDesktop this" by simp
  then have "0 \<le> currentDesktop ?this2" using cur by simp
  from numberToDesktopId_total [OF n this, of desktop1 disallowEmptyDesktops]
  obtain newDesktop where
    nd: "numberToDesktopId n ?this2 desktop1 disallowEmptyDesktops = Some newDesktop" by blast
  let ?this3 = "?this2\<lparr>currentDesktop := newDesktop\<rparr>"
  let ?calls = "[GetAll, OnChange newDesktop, SaveState newDesktop (windowStates ?this3)]"
  have known: "map_of (windowStates ?this3) (win_id w) \<noteq> None" if "w \<in> set windows" for w
    using known_after_refresh [OF that, of sendToDesktop this focusedWinId desktop1] by simp
  show ?thesis
  proof (cases "newDesktop = currentDesktop this")
    case True
    have "switchToDesktop n disallowEmptyDesktops this windows desktop focusedWinId sendToDesktop
        = Some (Inr (?this3, ?calls @ [Callback]))"
      unfolding switchToDesktop_def Let_def d1 option.case nd using True cur2 by simp
    moreover have "currentDesktop ?this3 = newDesktop" by simp
    ultimately show ?thesis using True by simp
  next
    case False
    from applyWindowStates_Inr [of windows ?this3 focusedWinId] known
    obtain applied where ap: "applyWindowStates ?this3 windows focusedWinId = Inr applied" by blast
    have "switchToDesktop n disallowEmptyDesktops this windows desktop focusedWinId sendToDesktop
        = Some (Inr (?this3, ?calls @ applied))"
      unfolding switchToDesktop_def Let_def d1 option.case nd using False cur2 ap by simp
    moreover have "currentDesktop ?this3 \<noteq> currentDesktop this" using False by simp
    ultimately show ?thesis by simp
  qed
qed

theorem switchToDesktop_same_desktop_witness:
  "(1::int) \<le> 3 \<and> 0 \<le> currentDesktop threeDesktops \<and>
   (\<exists>this'. switchToDesktop 3 True threeDesktops
                [liveWindow 1 ''normal'', liveWindow 2 ''minimized''] 0 (WinId 1) False
              = Some (Inr (this', [GetAll, OnChange 0, SaveState 0 (windowStates this'), Callback])) \<and>
            currentDesktop this' = currentDesktop threeDesktops)"
proof -
  have n: "(1::int) \<le> 3" by simp
  have cur: "0 \<le> currentDesktop threeDesktops" by (simp add: threeDesktops_def)
  from switchToDesktop_same_desktop [OF n cur, of True
      "[liveWindow 1 ''normal'', liveWindow 2 ''minimized'']" 0 "WinId 1" False]
  obtain this' calls where
    r: "switchToDesktop 3 True threeDesktops [liveWindow 1 ''normal'', liveWindow 2 ''minimized'']
          0 (WinId 1) False = Some (Inr (this', calls))" and
    same: "currentDesktop this' = currentDesktop threeDesktops \<longrightarrow>
             calls = [GetAll, OnChange (currentDesktop threeDesktops),
                      SaveState (currentDesktop threeDesktops) (windowStates this'), Callback] \<and>
             (\<forall>i u. Update i u \<notin> set calls) \<and> count_list calls Callback = 1"
    by (elim exE conjE) (rule that)
  from r have this': "this' = \<lparr>currentDesktop = 0, windowStates = [(1, normalWindow 0), (2, normalWindow 2)]\<rparr>"
    by (simp add: same_desktop_example)
  then have eq: "currentDesktop this' = currentDesktop threeDesktops"
    by (simp add: threeDesktops_def)
  with same have "calls = [GetAll, OnChange (currentDesktop threeDesktops),
                      SaveState (currentDesktop threeDesktops) (windowStates this'), Callback]"
    by simp
  then have "calls = [GetAll, OnChange 0, SaveState 0 (windowStates this'), Callback]"
    by (simp add: threeDesktops_def)
  with r eq n cur show ?thesis by blast
qed


section \<open>forgetWindow\<close>









text \<open>
  When the desktop count has shrunk below the stored desktop number, the desktop after
  the last window is closed is the clamped one: with three desktops, window \<open>1\<close> alone on
  the stored desktop \<open>4\<close>, the current desktop afterwards is \<open>2\<close>, and the windows are
  updated as for any change of desktop (here there is none left).
\<close>

lemma forgetWindow_shrunk_example:
  "forgetWindow 3 True lastWindowShrunk 1 None []
     = Some (Inr (\<lparr>currentDesktop = 2, windowStates = []\<rparr>,
         [SaveState 4 [], GetLastFocused, GetAll, OnChange 2, SaveState 2 [], Callback]))"
proof -
  let ?this1 = "\<lparr>currentDesktop = 4, windowStates = []\<rparr>"
  have del: "lastWindowShrunk\<lparr>windowStates := AList.delete 1 (windowStates lastWindowShrunk)\<rparr> = ?this1"
    by (simp add: lastWindowShrunk_def)
  have u: "updateWindowStates ?this1 [] = ?this1" by (simp add: updateWindowStates_def)
  have a: "numberToDesktopId 3 ?this1 4 False = Some 2"
    by (simp add: numberToDesktopId_False clampCurrent_def wrapDesktop_def js_rem_def)
  have cnt: "hasWindows (nWindowsOnDesktop []) d = False" for d
    by (simp add: nWindowsOnDesktop_def hasWindows_def)
  have dir: "adjustDirection 3 2 2 = - 1" by (simp add: adjustDirection_def mapDirection_div)
  have b: "numberToDesktopId 3 ?this1 2 True = Some 2"
    by (simp add: numberToDesktopId_True clampCurrent_def wrapDesktop_def js_rem_def dir
        skipEmpty_next skipEmpty_back cnt)
  have sw: "switchToDesktop 3 True ?this1 [] 4 WinNull False
     = Some (Inr (\<lparr>currentDesktop = 2, windowStates = []\<rparr>,
          [GetAll, OnChange 2, SaveState 2 [], Callback]))"
    unfolding switchToDesktop_def u Let_def a option.case if_False b
    by (simp add: applyWindowStates_def)
  show ?thesis
    unfolding forgetWindow_def Let_def del by (simp add: sw)
qed





section \<open>Reconciling the geometry of a window\<close>

declare checkWindowUpdated.simps [simp del]

lemma fixUpdateInfo_distance:
  "distance (fixUpdateInfo win u) =
     (case (ui_width u, ui_left u) of
        (Some uw, Some ul) \<Rightarrow> \<bar>(win_left win + win_width win) - (ul + uw)\<bar> | _ \<Rightarrow> 0) +
     (case (ui_height u, ui_top u) of
        (Some uh, Some ut) \<Rightarrow> \<bar>(win_top win + win_height win) - (ut + uh)\<bar> | _ \<Rightarrow> 0)"
  by (simp add: fixUpdateInfo_def Let_def split: option.splits prod.splits)

lemma fixUpdateInfo_newUpdateInfo:
  "newUpdateInfo (fixUpdateInfo win u) =
     noUpdate\<lparr>ui_width :=
                (case (ui_width u, ui_left u) of
                   (Some uw, Some ul) \<Rightarrow> Some (uw - ((win_left win + win_width win) - (ul + uw)))
                 | _ \<Rightarrow> None),
              ui_height :=
                (case (ui_height u, ui_top u) of
                   (Some uh, Some ut) \<Rightarrow> Some (uh - ((win_top win + win_height win) - (ut + uh)))
                 | _ \<Rightarrow> None)\<rparr>"
  by (simp add: fixUpdateInfo_def Let_def split: option.splits prod.splits)

lemma distance_nonneg: "0 \<le> distance (fixUpdateInfo win u)"
  by (simp add: fixUpdateInfo_distance split: option.splits)

lemma checkWindowUpdated_counts:
  "count_list (checkWindowUpdated observe winId u i) Done = 1 \<and>
   length (filter isGet (checkWindowUpdated observe winId u i)) \<le> WINDOW_MANAGER_ATTEMPTS - i \<and>
   length (filter isWrite (checkWindowUpdated observe winId u i)) \<le> 1 \<and>
   last (checkWindowUpdated observe winId u i) = Done"
proof (induction observe winId u i rule: checkWindowUpdated.induct)
  case (1 observe winId u i)
  show ?case
  proof (cases "i \<ge> WINDOW_MANAGER_ATTEMPTS")
    case True
    then show ?thesis
      by (subst (1 2 3 4) checkWindowUpdated.simps) simp
  next
    case False
    show ?thesis
    proof (cases "observe i")
      case None
      with False show ?thesis
        by (subst (1 2 3 4) checkWindowUpdated.simps) simp
    next
      case (Some win)
      consider "distance (fixUpdateInfo win u) = 0"
        | "distance (fixUpdateInfo win u) \<noteq> 0" "distance (fixUpdateInfo win u) > WINDOW_MANAGER_TOLERANCE"
        | "distance (fixUpdateInfo win u) \<noteq> 0" "\<not> distance (fixUpdateInfo win u) > WINDOW_MANAGER_TOLERANCE"
        by blast
      then show ?thesis
      proof cases
        case 1
        with False Some show ?thesis
          by (subst (1 2 3 4) checkWindowUpdated.simps) simp
      next
        case 2
        from "1.IH" [OF False Some refl 2]
        have ih: "count_list (checkWindowUpdated observe winId u (i + 1)) Done = 1 \<and>
           length (filter isGet (checkWindowUpdated observe winId u (i + 1))) \<le> WINDOW_MANAGER_ATTEMPTS - (i + 1) \<and>
           length (filter isWrite (checkWindowUpdated observe winId u (i + 1))) \<le> 1 \<and>
           last (checkWindowUpdated observe winId u (i + 1)) = Done" .
        then have ne: "checkWindowUpdated observe winId u (i + 1) \<noteq> []" by auto
        have eq: "checkWindowUpdated observe winId u i =
            SetTimeout WINDOW_MANAGER_UPDATE_DELAY_MS # WindowsGet winId #
              checkWindowUpdated observe winId u (i + 1)"
          using False Some 2 by (subst checkWindowUpdated.simps) simp
        show ?thesis unfolding eq using ih ne False by auto
      next
        case 3
        with False Some show ?thesis
          by (subst (1 2 3 4) checkWindowUpdated.simps) simp
      qed
    qed
  qed
qed


lemma checkWindowUpdated_gave_up:
  "WINDOW_MANAGER_ATTEMPTS \<le> i \<Longrightarrow> checkWindowUpdated observe winId u i = [Done]"
  by (subst checkWindowUpdated.simps) simp

lemma checkWindowUpdated_converged:
  "i < WINDOW_MANAGER_ATTEMPTS \<Longrightarrow> observe i = Some win \<Longrightarrow> distance (fixUpdateInfo win u) = 0 \<Longrightarrow>
   checkWindowUpdated observe winId u i =
     [SetTimeout WINDOW_MANAGER_UPDATE_DELAY_MS, WindowsGet winId, Done]"
  by (subst checkWindowUpdated.simps) simp

lemma checkWindowUpdated_fix:
  "i < WINDOW_MANAGER_ATTEMPTS \<Longrightarrow> observe i = Some win \<Longrightarrow> 0 < distance (fixUpdateInfo win u) \<Longrightarrow>
   distance (fixUpdateInfo win u) \<le> WINDOW_MANAGER_TOLERANCE \<Longrightarrow>
   checkWindowUpdated observe winId u i =
     [SetTimeout WINDOW_MANAGER_UPDATE_DELAY_MS, WindowsGet winId,
      WindowsUpdate winId (newUpdateInfo (fixUpdateInfo win u)), Done]"
  by (subst checkWindowUpdated.simps) simp

lemma checkWindowUpdated_retry:
  "i < WINDOW_MANAGER_ATTEMPTS \<Longrightarrow> observe i = Some win \<Longrightarrow>
   WINDOW_MANAGER_TOLERANCE < distance (fixUpdateInfo win u) \<Longrightarrow>
   checkWindowUpdated observe winId u i =
     SetTimeout WINDOW_MANAGER_UPDATE_DELAY_MS # WindowsGet winId #
       checkWindowUpdated observe winId u (i + 1)"
  by (subst checkWindowUpdated.simps) (simp add: WINDOW_MANAGER_TOLERANCE_def)

lemma checkWindowUpdated_exhausted:
  assumes far: "\<And>j. j < WINDOW_MANAGER_ATTEMPTS \<Longrightarrow>
                  \<exists>win. observe j = Some win \<and> WINDOW_MANAGER_TOLERANCE < distance (fixUpdateInfo win u)"
  shows "i \<le> WINDOW_MANAGER_ATTEMPTS \<Longrightarrow>
         checkWindowUpdated observe winId u i =
           concat (replicate (WINDOW_MANAGER_ATTEMPTS - i)
                     [SetTimeout WINDOW_MANAGER_UPDATE_DELAY_MS, WindowsGet winId]) @ [Done]"
proof (induction "WINDOW_MANAGER_ATTEMPTS - i" arbitrary: i)
  case 0
  then have "WINDOW_MANAGER_ATTEMPTS \<le> i" by simp
  with 0 show ?case by (simp add: checkWindowUpdated_gave_up)
next
  case (Suc k)
  then have lt: "i < WINDOW_MANAGER_ATTEMPTS" by simp
  from far [OF lt] obtain win where
    win: "observe i = Some win" "WINDOW_MANAGER_TOLERANCE < distance (fixUpdateInfo win u)"
    by blast
  have k: "k = WINDOW_MANAGER_ATTEMPTS - (i + 1)" using Suc.hyps(2) by simp
  have le: "i + 1 \<le> WINDOW_MANAGER_ATTEMPTS" using lt by simp
  have rep: "WINDOW_MANAGER_ATTEMPTS - i = Suc (WINDOW_MANAGER_ATTEMPTS - (i + 1))"
    using lt by simp
  have step: "checkWindowUpdated observe winId u i =
      SetTimeout WINDOW_MANAGER_UPDATE_DELAY_MS # WindowsGet winId #
        checkWindowUpdated observe winId u (i + 1)"
    using lt win by (rule checkWindowUpdated_retry [where observe = observe and i = i])
  show ?case
    unfolding step Suc.hyps(1) [OF k le] rep by simp
qed

text \<open>
  Claim C7.  \<open>update\<close> writes the request and then checks.  The distance is the sum,
  over the pairs (left, width) and (top, height) that the request holds, of the absolute
  offset between the far edge read back and the far edge requested, and the corrective
  request holds the requested width and height less the offset.  A check at attempt
  \<open>i < 5\<close> waits, reads the window back and then: with distance \<open>0\<close> it calls back
  without a write; with a distance above \<open>0\<close> and at most \<open>64\<close> it issues the corrective
  write and calls back; with a distance above \<open>64\<close> it checks again as attempt \<open>i + 1\<close>.
  At attempt \<open>5\<close> it gives up and calls back.  So when all five readings are further
  than \<open>64\<close> away, the calls are the write, five rounds of waiting and reading, and the
  callback.  In every case the callback is invoked exactly once, at most five readings
  are made and at most one corrective write is issued.
\<close>

theorem update_reconciles:
  "update observe winId u = WindowsUpdate winId u # checkWindowUpdated observe winId u 0 \<and>
   distance (fixUpdateInfo win u) =
     (case (ui_width u, ui_left u) of
        (Some uw, Some ul) \<Rightarrow> \<bar>(win_left win + win_width win) - (ul + uw)\<bar> | _ \<Rightarrow> 0) +
     (case (ui_height u, ui_top u) of
        (Some uh, Some ut) \<Rightarrow> \<bar>(win_top win + win_height win) - (ut + uh)\<bar> | _ \<Rightarrow> 0) \<and>
   newUpdateInfo (fixUpdateInfo win u) =
     noUpdate\<lparr>ui_width :=
                (case (ui_width u, ui_left u) of
                   (Some uw, Some ul) \<Rightarrow> Some (uw - ((win_left win + win_width win) - (ul + uw)))
                 | _ \<Rightarrow> None),
              ui_height :=
                (case (ui_height u, ui_top u) of
                   (Some uh, Some ut) \<Rightarrow> Some (uh - ((win_top win + win_height win) - (ut + uh)))
                 | _ \<Rightarrow> None)\<rparr> \<and>
   (i < 5 \<and> observe i = Some win \<and> distance (fixUpdateInfo win u) = 0 \<longrightarrow>
      checkWindowUpdated observe winId u i = [SetTimeout 50, WindowsGet winId, Done]) \<and>
   (i < 5 \<and> observe i = Some win \<and> 0 < distance (fixUpdateInfo win u) \<and>
    distance (fixUpdateInfo win u) \<le> 64 \<longrightarrow>
      checkWindowUpdated observe winId u i =
        [SetTimeout 50, WindowsGet winId,
         WindowsUpdate winId (newUpdateInfo (fixUpdateInfo win u)), Done]) \<and>
   (i < 5 \<and> observe i = Some win \<and> 64 < distance (fixUpdateInfo win u) \<longrightarrow>
      checkWindowUpdated observe winId u i =
        SetTimeout 50 # WindowsGet winId # checkWindowUpdated observe winId u (i + 1)) \<and>
   (5 \<le> i \<longrightarrow> checkWindowUpdated observe winId u i = [Done]) \<and>
   ((\<forall>j<5. \<exists>w. observe j = Some w \<and> 64 < distance (fixUpdateInfo w u)) \<longrightarrow>
      update observe winId u =
        WindowsUpdate winId u # concat (replicate 5 [SetTimeout 50, WindowsGet winId]) @ [Done]) \<and>
   count_list (update observe winId u) Done = 1 \<and>
   length (filter isGet (update observe winId u)) \<le> 5 \<and>
   length (filter isWrite (checkWindowUpdated observe winId u 0)) \<le> 1"
proof -
  note cdefs = WINDOW_MANAGER_ATTEMPTS_def WINDOW_MANAGER_TOLERANCE_def
    WINDOW_MANAGER_UPDATE_DELAY_MS_def
  have a: "update observe winId u = WindowsUpdate winId u # checkWindowUpdated observe winId u 0"
    by (simp add: update_def)
  have c: "checkWindowUpdated observe winId u i = [SetTimeout 50, WindowsGet winId, Done]"
    if "i < 5 \<and> observe i = Some win \<and> distance (fixUpdateInfo win u) = 0"
    using that checkWindowUpdated_converged [of i observe win u winId] by (simp add: cdefs)
  have d: "checkWindowUpdated observe winId u i =
        [SetTimeout 50, WindowsGet winId,
         WindowsUpdate winId (newUpdateInfo (fixUpdateInfo win u)), Done]"
    if "i < 5 \<and> observe i = Some win \<and> 0 < distance (fixUpdateInfo win u) \<and>
        distance (fixUpdateInfo win u) \<le> 64"
    using that checkWindowUpdated_fix [of i observe win u winId] by (simp add: cdefs)
  have e: "checkWindowUpdated observe winId u i =
        SetTimeout 50 # WindowsGet winId # checkWindowUpdated observe winId u (i + 1)"
    if "i < 5 \<and> observe i = Some win \<and> 64 < distance (fixUpdateInfo win u)"
    using that checkWindowUpdated_retry [of i observe win u winId] by (simp add: cdefs)
  have f: "checkWindowUpdated observe winId u i = [Done]" if "5 \<le> i"
    using that checkWindowUpdated_gave_up [of i observe winId u] by (simp add: cdefs)
  have g: "update observe winId u =
        WindowsUpdate winId u # concat (replicate 5 [SetTimeout 50, WindowsGet winId]) @ [Done]"
    if far: "\<forall>j<5. \<exists>w. observe j = Some w \<and> 64 < distance (fixUpdateInfo w u)"
  proof -
    have "\<exists>win. observe j = Some win \<and> WINDOW_MANAGER_TOLERANCE < distance (fixUpdateInfo win u)"
      if "j < WINDOW_MANAGER_ATTEMPTS" for j
      using far that by (simp add: cdefs)
    from checkWindowUpdated_exhausted [of observe u 0 winId, OF this]
    show ?thesis by (simp add: a cdefs)
  qed
  note cnt = checkWindowUpdated_counts [of observe winId u 0]
  have h: "count_list (update observe winId u) Done = 1" using cnt by (simp add: a)
  have k: "length (filter isGet (update observe winId u)) \<le> 5" using cnt by (simp add: a cdefs)
  have l: "length (filter isWrite (checkWindowUpdated observe winId u 0)) \<le> 1" using cnt by simp
  from a fixUpdateInfo_distance [of win u] fixUpdateInfo_newUpdateInfo [of win u] c d e f g h k l
  show ?thesis by (intro conjI impI)
qed

text \<open>
  The request \<open>(100, 100, 300, 200)\<close> read back with its left edge moved by \<open>3\<close> and its
  top edge by \<open>13\<close> is \<open>16\<close> away, and the window is at the requested far corner after
  the corrective write.
\<close>

lemma decorated_fix:
  "fixUpdateInfo \<lparr>win_id = 7, win_left = 103, win_top = 113, win_width = 300,
                   win_height = 200, win_state = ''normal'', win_focused = True\<rparr> requestedBounds
   = \<lparr>newUpdateInfo = noUpdate\<lparr>ui_width := Some 297, ui_height := Some 187\<rparr>, distance = 16\<rparr>"
  by (simp add: fixUpdateInfo_def requestedBounds_def noUpdate_def)

lemma decorated_fixed:
  "distance (fixUpdateInfo \<lparr>win_id = 7, win_left = 103, win_top = 113, win_width = 297,
                   win_height = 187, win_state = ''normal'', win_focused = True\<rparr> requestedBounds) = 0"
  by (simp add: fixUpdateInfo_def requestedBounds_def noUpdate_def)

theorem update_reconciles_witness:
  "(0::nat) < 5 \<and>
   decorated 0 = Some \<lparr>win_id = 7, win_left = 103, win_top = 113, win_width = 300,
                        win_height = 200, win_state = ''normal'', win_focused = True\<rparr> \<and>
   update decorated 7 requestedBounds =
     [WindowsUpdate 7 requestedBounds, SetTimeout 50, WindowsGet 7,
      WindowsUpdate 7 (noUpdate\<lparr>ui_width := Some 297, ui_height := Some 187\<rparr>), Done]"
proof -
  let ?win = "\<lparr>win_id = 7, win_left = 103, win_top = 113, win_width = 300,
                win_height = 200, win_state = ''normal'', win_focused = True\<rparr>"
  note inst = update_reconciles [of decorated 7 requestedBounds ?win 0]
  have obs: "decorated 0 = Some ?win" by (simp add: decorated_def)
  have pre: "(0::nat) < 5 \<and> decorated 0 = Some ?win \<and> 0 < distance (fixUpdateInfo ?win requestedBounds) \<and>
        distance (fixUpdateInfo ?win requestedBounds) \<le> 64"
    by (simp add: obs decorated_fix)
  from inst have "(0::nat) < 5 \<and> decorated 0 = Some ?win \<and> 0 < distance (fixUpdateInfo ?win requestedBounds) \<and>
        distance (fixUpdateInfo ?win requestedBounds) \<le> 64 \<longrightarrow>
      checkWindowUpdated decorated 7 requestedBounds 0 =
        [SetTimeout 50, WindowsGet 7,
         WindowsUpdate 7 (newUpdateInfo (fixUpdateInfo ?win requestedBounds)), Done]"
    by (elim conjE)
  with pre have "checkWindowUpdated decorated 7 requestedBounds 0 =
        [SetTimeout 50, WindowsGet 7,
         WindowsUpdate 7 (newUpdateInfo (fixUpdateInfo ?win requestedBounds)), Done]"
    by (rule rev_mp)
  then show ?thesis by (simp add: update_def decorated_fix obs)
qed

section \<open>Order and exclusion in the wakeup queue\<close>

text \<open>
  \<open>wakeupFirst_\<close> runs the tasks at the head of the queue that complete immediately, one
  after the other, and leaves the first task that does not as the running task.
\<close>

lemma pairs_simps [simp]:
  "pairs [] = []" "pairs (f # fs) = Started f # Finished f # pairs fs"
  "pairs (fs @ gs) = pairs fs @ pairs gs"
  by (simp_all add: pairs_def)

lemma running_simps [simp]: "running [] = []" "running (f # q) = [Started f]"
  by (simp_all add: running_def)

lemma wakeupFirst_eq:
  "wakeupFirst q =
     (dropWhile immediate q, pairs (takeWhile immediate q) @ running (dropWhile immediate q))"
proof (induction q)
  case Nil
  show ?case by simp
next
  case (Cons f q)
  show ?case
  proof (cases "completes f")
    case Immediately
    then show ?thesis using Cons by (simp add: immediate_def)
  next
    case Later
    then show ?thesis by (simp add: immediate_def)
  next
    case Never
    then show ?thesis by (simp add: immediate_def)
  qed
qed

lemma wakeupNext_eq:
  "wakeupNext (f # q) =
     (dropWhile immediate q,
      Finished f # pairs (takeWhile immediate q) @ running (dropWhile immediate q))"
  by (simp add: wakeupFirst_eq del: wakeupFirst.simps)

declare wakeupFirst.simps [simp del] wakeupNext.simps [simp del]

lemma dropWhile_head: "(case dropWhile immediate q of [] \<Rightarrow> True | f # r \<Rightarrow> completes f \<noteq> Immediately)"
  by (induction q) (auto simp: immediate_def)

lemma takeWhile_not_never: "list_all (\<lambda>g. completes g \<noteq> Never) (takeWhile immediate q)"
  by (induction q) (auto simp: immediate_def)

lemma add_inv:
  assumes "queue_inv fs q tr" and "add q func = (q', os)"
  shows "queue_inv (fs @ [func]) q' (tr @ os)"
proof -
  from assms(1) obtain c where c: "c \<le> length fs" and q: "q = drop c fs"
    and tr: "tr = pairs (take c fs) @ running q"
    and nn: "list_all (\<lambda>g. completes g \<noteq> Never) (take c fs)"
    and hd: "case q of [] \<Rightarrow> True | f # r \<Rightarrow> completes f \<noteq> Immediately"
    unfolding queue_inv_def by blast
  show ?thesis
  proof (cases q)
    case Nil
    with q c have cl: "c = length fs" by simp
    from Nil assms(2) have w: "wakeupFirst [func] = (q', os)" by (simp add: add_def)
    show ?thesis
    proof (cases "completes func = Immediately")
      case True
      with w have r: "q' = []" "os = [Started func, Finished func]"
        by (simp_all add: wakeupFirst_eq immediate_def)
      have "list_all (\<lambda>g. completes g \<noteq> Never) (fs @ [func])"
        using nn cl True by simp
      then show ?thesis
        unfolding queue_inv_def r using tr Nil cl
        by (intro exI [of _ "Suc (length fs)"]) simp
    next
      case False
      with w have r: "q' = [func]" "os = [Started func]"
        by (simp_all add: wakeupFirst_eq immediate_def)
      show ?thesis
        unfolding queue_inv_def r using tr Nil cl nn False
        by (intro exI [of _ "length fs"]) simp
    qed
  next
    case (Cons f r)
    with assms(2) have r: "q' = q @ [func]" "os = []" by (simp_all add: add_def)
    have run: "running (q @ [func]) = running q" using Cons by simp
    have "c \<le> length (fs @ [func])" using c by simp
    moreover have "q @ [func] = drop c (fs @ [func])" using c q by simp
    moreover have "tr @ [] = pairs (take c (fs @ [func])) @ running (q @ [func])"
      using c tr run by simp
    moreover have "list_all (\<lambda>g. completes g \<noteq> Never) (take c (fs @ [func]))"
      using c nn by simp
    moreover have "case q @ [func] of [] \<Rightarrow> True | f # r \<Rightarrow> completes f \<noteq> Immediately"
      using hd Cons by simp
    ultimately show ?thesis
      unfolding queue_inv_def r by (intro exI [of _ c] conjI)
  qed
qed

lemma take_two: "take (length a + length b) (a @ b @ d) = a @ b"
  by simp

lemma drop_two: "drop (length a + length b) (a @ b @ d) = d"
  by simp

lemma signal_inv:
  assumes "queue_inv fs (f # r) tr" and "completes f = Later" and "wakeupNext (f # r) = (q', os)"
  shows "queue_inv fs q' (tr @ os)"
proof -
  from assms(1) obtain c where c: "c \<le> length fs" and q: "f # r = drop c fs"
    and tr: "tr = pairs (take c fs) @ running (f # r)"
    and nn: "list_all (\<lambda>g. completes g \<noteq> Never) (take c fs)"
    unfolding queue_inv_def by blast
  let ?t = "takeWhile immediate r" and ?d = "dropWhile immediate r"
  from assms(3) have res: "q' = ?d" "os = Finished f # pairs ?t @ running ?d"
    by (auto simp: wakeupNext_eq)
  have fs: "fs = take c fs @ f # ?t @ ?d"
    using q by (metis append_take_drop_id takeWhile_dropWhile_id)
  let ?c = "c + Suc (length ?t)"
  have lr: "length ?t + length ?d = length r"
    using arg_cong [OF takeWhile_dropWhile_id [of immediate r], of length]
    by (simp only: length_append)
  have "length fs = length (take c fs) + length (f # r)"
    using q by (metis append_take_drop_id length_append)
  then have len: "length fs = c + Suc (length ?t + length ?d)"
    using c lr by simp
  define a where "a = take c fs"
  have la: "length a = c" using c by (simp add: a_def)
  have fsa: "fs = a @ (f # ?t) @ ?d" using fs by (simp add: a_def)
  have ca: "?c = length a + length (f # ?t)" using la by simp
  have tk: "take ?c fs = take c fs @ f # ?t"
    unfolding ca by (subst fsa, subst take_two) (simp add: a_def)
  have dr: "drop ?c fs = ?d"
    unfolding ca by (subst fsa, subst drop_two) simp
  have "?c \<le> length fs" using len by simp
  moreover have "q' = drop ?c fs" using res dr by simp
  moreover have "tr @ os = pairs (take ?c fs) @ running q'"
    unfolding tk using tr res by simp
  moreover have "list_all (\<lambda>g. completes g \<noteq> Never) (take ?c fs)"
    unfolding tk using nn assms(2) takeWhile_not_never [of r] by simp
  moreover have "case q' of [] \<Rightarrow> True | f # r \<Rightarrow> completes f \<noteq> Immediately"
    unfolding res by (rule dropWhile_head)
  ultimately show ?thesis unfolding queue_inv_def by (intro exI [of _ ?c] conjI)
qed

lemma added_append [simp]: "added (es @ es') = added es @ added es'"
  by (induction es rule: added.induct) simp_all

lemma step_inv:
  assumes "queue_inv fs q tr" and "step q e = Some (q', os)"
  shows "queue_inv (fs @ added [e]) q' (tr @ os)"
proof (cases e)
  case (Add func)
  with assms show ?thesis by (simp add: add_inv)
next
  case Signal
  with assms(2) obtain f r where q: "q = f # r" by (cases q) auto
  with Signal assms(2) have l: "completes f = Later" and w: "wakeupNext (f # r) = (q', os)"
    by (auto split: if_splits)
  from signal_inv [OF assms(1) [unfolded q] l w] Signal show ?thesis by simp
qed

lemma run_inv:
  "queue_inv fs q tr \<Longrightarrow> run q tr es = Some (q', tr') \<Longrightarrow> queue_inv (fs @ added es) q' tr'"
proof (induction es arbitrary: fs q tr)
  case Nil
  then show ?case by simp
next
  case (Cons e es)
  from Cons.prems(2) obtain q1 os where s: "step q e = Some (q1, os)"
    and r: "run q1 (tr @ os) es = Some (q', tr')"
    by (auto split: option.splits)
  from Cons.IH [OF step_inv [OF Cons.prems(1) s] r]
  have "queue_inv ((fs @ added [e]) @ added es) q' tr'" .
  moreover have "(fs @ added [e]) @ added es = fs @ added (e # es)"
    by (cases e) simp_all
  ultimately show ?case by simp
qed

lemma queue_inv_init: "queue_inv [] [] []"
  by (simp add: queue_inv_def)

lemma started_append [simp]: "started (a @ b) = started a @ started b"
  by (induction a rule: started.induct) simp_all

lemma finished_append [simp]: "finished (a @ b) = finished a @ finished b"
  by (induction a rule: finished.induct) simp_all

lemma started_pairs [simp]: "started (pairs xs) = xs"
  by (induction xs) simp_all

lemma finished_pairs [simp]: "finished (pairs xs) = xs"
  by (induction xs) simp_all

lemma started_running [simp]: "started (running q) = take 1 q"
  by (cases q) simp_all

lemma finished_running [simp]: "finished (running q) = []"
  by (cases q) simp_all

lemma one_active:
  "length (finished (take k (pairs xs @ running q))) \<le> length (started (take k (pairs xs @ running q))) \<and>
   length (started (take k (pairs xs @ running q))) \<le> Suc (length (finished (take k (pairs xs @ running q))))"
proof (induction xs arbitrary: k)
  case Nil
  show ?case by (cases q; cases k) simp_all
next
  case (Cons f xs)
  show ?case
  proof (cases k)
    case 0
    then show ?thesis by simp
  next
    case (Suc j)
    show ?thesis
    proof (cases j)
      case 0
      with Suc show ?thesis by simp
    next
      case (Suc i)
      with \<open>k = Suc j\<close> Cons [of i] show ?thesis by simp
    qed
  qed
qed

lemma take_drop_one: "c \<le> length fs \<Longrightarrow> take c fs @ take 1 (drop c fs) = take (c + length (take 1 (drop c fs))) fs"
proof (cases "drop c fs")
  case Nil
  then show ?thesis by simp
next
  case (Cons a list)
  have "take (c + 1) fs = take c fs @ take 1 (drop c fs)" by (rule take_add)
  with Cons show ?thesis by simp
qed

text \<open>
  Claim C5.  After any calls of \<open>add\<close> and any completion signals of the running task,
  starting from the empty queue: the tasks finished are the first \<open>c\<close> tasks added, the
  queue holds the others in the order added, and the records are those of the first \<open>c\<close>
  tasks, each started and finished before the next starts, followed by the start of the
  task at the head of the queue.  So tasks start in the order added, after every number of
  records the tasks started are the tasks finished or one more, and a task added to the
  empty queue starts inside the call of \<open>add\<close>, and has finished there when it completes
  immediately.
\<close>

theorem wakeupQueue_fifo:
  assumes "run [] [] es = Some (q, tr)"
  shows "(\<exists>c\<le>length (added es).
            q = drop c (added es) \<and> tr = pairs (take c (added es)) @ running q) \<and>
         started tr = take (length (started tr)) (added es) \<and>
         finished tr = take (length (finished tr)) (added es) \<and>
         (\<forall>k. length (finished (take k tr)) \<le> length (started (take k tr)) \<and>
              length (started (take k tr)) \<le> Suc (length (finished (take k tr)))) \<and>
         add [] func = (if completes func = Immediately
                        then ([], [Started func, Finished func])
                        else ([func], [Started func]))"
proof -
  from run_inv [OF queue_inv_init assms] obtain c where
    c: "c \<le> length (added es)" and q: "q = drop c (added es)"
    and tr: "tr = pairs (take c (added es)) @ running q"
    unfolding queue_inv_def by auto
  have a: "\<exists>c\<le>length (added es). q = drop c (added es) \<and> tr = pairs (take c (added es)) @ running q"
    using c q tr by blast
  have st: "started tr = take c (added es) @ take 1 (drop c (added es))"
    using tr q by simp
  have "length (started tr) = c + length (take 1 (drop c (added es)))"
    using st c by simp
  then have b: "started tr = take (length (started tr)) (added es)"
    using st take_drop_one [OF c] by simp
  have fin: "finished tr = take c (added es)" using tr by simp
  then have "length (finished tr) = c" using c by simp
  with fin have d: "finished tr = take (length (finished tr)) (added es)" by simp
  have e: "\<forall>k. length (finished (take k tr)) \<le> length (started (take k tr)) \<and>
              length (started (take k tr)) \<le> Suc (length (finished (take k tr)))"
  proof
    fix k
    show "length (finished (take k tr)) \<le> length (started (take k tr)) \<and>
              length (started (take k tr)) \<le> Suc (length (finished (take k tr)))"
      unfolding tr by (rule one_active)
  qed
  have f: "add [] func = (if completes func = Immediately
                        then ([], [Started func, Finished func])
                        else ([func], [Started func]))"
    by (simp add: add_def wakeupFirst_eq immediate_def)
  from a b d e f show ?thesis by (intro conjI)
qed

lemma abc_run:
  "run [] [] [Add taskA, Add taskB, Add taskC, Signal, Signal] =
     Some ([], [Started taskA, Finished taskA, Started taskB, Finished taskB,
                Started taskC, Finished taskC])"
  by (simp add: add_def wakeupFirst_eq wakeupNext_eq immediate_def taskA_def taskB_def taskC_def)

theorem wakeupQueue_fifo_witness:
  "run [] [] [Add taskA, Add taskB, Add taskC, Signal, Signal] =
     Some ([], [Started taskA, Finished taskA, Started taskB, Finished taskB,
                Started taskC, Finished taskC]) \<and>
   started [Started taskA, Finished taskA, Started taskB, Finished taskB,
            Started taskC, Finished taskC] = [taskA, taskB, taskC]"
proof -
  note inst = wakeupQueue_fifo [OF abc_run, of taskA]
  from conjunct1 [OF conjunct2 [OF inst]]
  have "started [Started taskA, Finished taskA, Started taskB, Finished taskB,
            Started taskC, Finished taskC] = [taskA, taskB, taskC]"
    by simp
  with abc_run show ?thesis by simp
qed


section \<open>A message with an unknown request\<close>

lemma messageHandler_step: "step q (Add (handlerTask i m)) = Some (messageHandler q i m)"
  by (simp add: messageHandler_def)

lemma dispatch_None: "(dispatch m = None) = (request m \<notin> Some ` set RequestType)"
  by (auto simp: dispatch_def RequestType_def)

lemma handlerTask_Never:
  "request m \<notin> Some ` set RequestType \<Longrightarrow> completes (handlerTask i m) = Never"
  by (simp add: handlerTask_def dispatch_None [symmetric])

lemma never_blocks:
  assumes inv: "queue_inv (xs @ f # ys) q tr" and never: "completes f = Never"
  shows "\<exists>c\<le>length xs. q = drop c xs @ f # ys \<and> tr = pairs (take c xs) @ running q"
proof -
  from inv obtain c where c: "c \<le> length (xs @ f # ys)" and q: "q = drop c (xs @ f # ys)"
    and tr: "tr = pairs (take c (xs @ f # ys)) @ running q"
    and nn: "list_all (\<lambda>g. completes g \<noteq> Never) (take c (xs @ f # ys))"
    unfolding queue_inv_def by blast
  have le: "c \<le> length xs"
  proof (rule ccontr)
    assume "\<not> c \<le> length xs"
    then have "f \<in> set (take c (xs @ f # ys))"
      by (cases "c - length xs") simp_all
    with nn never show False by (simp add: list_all_iff)
  qed
  then have "q = drop c xs @ f # ys" "tr = pairs (take c xs) @ running q"
    using q tr by simp_all
  with le show ?thesis by blast
qed

text \<open>
  Claim C10.  When the message handler has enqueued the task of a message whose \<open>request\<close>
  is none of the six request types, then after any further calls of \<open>add\<close> and completion
  signals the queue is not idle: it still holds that task and, behind it, every task
  added afterwards.  The tasks finished are among those added before it, so its
  callback, which sends the response and invokes the completion signal, has not run;
  and the tasks started are among those added before it and itself, so no task added
  afterwards has started.
\<close>

theorem unknown_request_stalls_queue:
  assumes unknown: "request m \<notin> Some ` set RequestType"
    and run: "run [] [] (es @ Add (handlerTask i m) # es') = Some (q, tr)"
  shows "\<not> isIdle q \<and>
         (\<exists>c\<le>length (added es).
            q = drop c (added es) @ handlerTask i m # added es' \<and>
            finished tr = take c (added es) \<and>
            started tr = take (Suc c) (added es @ [handlerTask i m]))"
proof -
  let ?f = "handlerTask i m"
  have ad: "added (es @ Add ?f # es') = added es @ ?f # added es'" by simp
  from run_inv [OF queue_inv_init run]
  have "queue_inv (added es @ ?f # added es') q tr" by (simp only: ad append_Nil)
  from never_blocks [OF this handlerTask_Never [OF unknown]]
  obtain c where c: "c \<le> length (added es)"
    and q: "q = drop c (added es) @ ?f # added es'"
    and tr: "tr = pairs (take c (added es)) @ running q"
    by blast
  have idle: "\<not> isIdle q" using q by (simp add: isIdle_def)
  have fin: "finished tr = take c (added es)" using tr by simp
  have hd: "take 1 q = take 1 (drop c (added es) @ [?f])"
    unfolding q by (cases "drop c (added es)") simp_all
  have "take (Suc c) (added es @ [?f]) = take c (added es @ [?f]) @ take 1 (drop c (added es @ [?f]))"
    using take_add [of c 1 "added es @ [?f]"] by simp
  also have "\<dots> = take c (added es) @ take 1 (drop c (added es) @ [?f])"
    using c by simp
  finally have st: "started tr = take (Suc c) (added es @ [?f])"
    using tr hd by simp
  from idle c q fin st show ?thesis by blast
qed

lemma stalled_run:
  "run [] [] ([] @ Add (handlerTask 1 unknownMessage) # [Add (handlerTask 2 nextDesktopMessage)]) =
     Some ([handlerTask 1 unknownMessage, handlerTask 2 nextDesktopMessage],
           [Started (handlerTask 1 unknownMessage)])"
proof -
  have "completes (handlerTask 1 unknownMessage) = Never"
    by (simp add: handlerTask_def dispatch_def unknownMessage_def MOVE_WINDOW_def EXTRACT_TAB_def
        SWITCH_TO_NEXT_DESKTOP_def SWITCH_TO_PREVIOUS_DESKTOP_def CURRENT_TO_NEXT_DESKTOP_def
        CURRENT_TO_PREVIOUS_DESKTOP_def)
  then show ?thesis
    by (simp add: add_def wakeupFirst_eq immediate_def)
qed

theorem unknown_request_stalls_queue_witness:
  "request unknownMessage \<notin> Some ` set RequestType \<and>
   run [] [] ([] @ Add (handlerTask 1 unknownMessage) # [Add (handlerTask 2 nextDesktopMessage)]) =
     Some ([handlerTask 1 unknownMessage, handlerTask 2 nextDesktopMessage],
           [Started (handlerTask 1 unknownMessage)]) \<and>
   \<not> isIdle [handlerTask 1 unknownMessage, handlerTask 2 nextDesktopMessage]"
proof -
  have unknown: "request unknownMessage \<notin> Some ` set RequestType"
    by (simp add: unknownMessage_def RequestType_def MOVE_WINDOW_def EXTRACT_TAB_def
        SWITCH_TO_NEXT_DESKTOP_def SWITCH_TO_PREVIOUS_DESKTOP_def CURRENT_TO_NEXT_DESKTOP_def
        CURRENT_TO_PREVIOUS_DESKTOP_def)
  from unknown_request_stalls_queue [OF unknown stalled_run]
  have "\<not> isIdle [handlerTask 1 unknownMessage, handlerTask 2 nextDesktopMessage]"
    by (rule conjunct1)
  with unknown stalled_run show ?thesis by (intro conjI)
qed

section \<open>The continuation of a barrier runs exactly once\<close>

lemma barrier_run_inv:
  "valid_from g fs fin th es \<Longrightarrow> barrier_inv g fs fin th b \<Longrightarrow>
   \<exists>b'. barrier_run b es = Some b' \<and>
        barrier_inv (g + gets es) (rev (fires es) @ fs) (fin \<or> Finalize \<in> set es)
          (th \<or> Then \<in> set es) b'"
proof (induction es arbitrary: g fs fin th b)
  case Nil
  then show ?case by simp
next
  case (Cons e es)
  show ?case
  proof (cases e)
    case Get
    let ?b = "b\<lparr>pending := pending b + 1\<rparr>"
    from Cons.prems Get have v: "valid_from (Suc g) fs fin th es" and nf: "\<not> fin" by auto
    have i: "barrier_inv (Suc g) fs fin th ?b"
      using Cons.prems(2) nf by (auto simp: barrier_inv_def)
    from Cons.IH [OF v i] obtain b' where
      "barrier_run ?b es = Some b'"
      "barrier_inv (Suc g + gets es) (rev (fires es) @ fs) (fin \<or> Finalize \<in> set es)
          (th \<or> Then \<in> set es) b'" by blast
    moreover have "barrier_step b e = Some ?b"
      using Get Cons.prems(2) nf by (simp add: barrier_inv_def)
    ultimately show ?thesis using Get by simp
  next
    case (Fire j)
    let ?b = "settle (b\<lparr>pending := pending b - 1\<rparr>)"
    from Cons.prems Fire have v: "valid_from g (j # fs) fin th es" and j: "j < g" "j \<notin> set fs"
      by auto
    from Cons.prems(2) have inv: "pending b + length fs = g" "distinct fs" "set fs \<subseteq> {..<g}"
      by (simp_all add: barrier_inv_def)
    have "card (set fs) < card {..<g}"
      using j inv(3) by (intro psubset_card_mono) auto
    then have lt: "length fs < g" using inv(2) by (simp add: distinct_card)
    then have pos: "pending b \<noteq> 0" using inv(1) by simp
    have i: "barrier_inv g (j # fs) fin th ?b"
      using Cons.prems(2) j lt pos by (auto simp: barrier_inv_def settle_def)
    from Cons.IH [OF v i] obtain b' where
      "barrier_run ?b es = Some b'"
      "barrier_inv (g + gets es) (rev (fires es) @ j # fs) (fin \<or> Finalize \<in> set es)
          (th \<or> Then \<in> set es) b'" by blast
    moreover have "barrier_step b e = Some ?b" using Fire pos by simp
    ultimately show ?thesis using Fire by simp
  next
    case Finalize
    let ?b = "settle (b\<lparr>finalized := True\<rparr>)"
    from Cons.prems Finalize have v: "valid_from g fs True th es" and nf: "\<not> fin" by auto
    have i: "barrier_inv g fs True th ?b"
      using Cons.prems(2) nf by (auto simp: barrier_inv_def settle_def)
    from Cons.IH [OF v i] obtain b' where
      "barrier_run ?b es = Some b'"
      "barrier_inv (g + gets es) (rev (fires es) @ fs) (True \<or> Finalize \<in> set es)
          (th \<or> Then \<in> set es) b'" by blast
    moreover have "barrier_step b e = Some ?b"
      using Finalize Cons.prems(2) nf by (simp add: barrier_inv_def)
    ultimately show ?thesis using Finalize by simp
  next
    case Then
    let ?b = "settle (b\<lparr>registered := True\<rparr>)"
    from Cons.prems Then have v: "valid_from g fs fin True es" and nt: "\<not> th" by auto
    have i: "barrier_inv g fs fin True ?b"
      using Cons.prems(2) nt by (auto simp: barrier_inv_def settle_def)
    from Cons.IH [OF v i] obtain b' where
      "barrier_run ?b es = Some b'"
      "barrier_inv (g + gets es) (rev (fires es) @ fs) (fin \<or> Finalize \<in> set es)
          (True \<or> Then \<in> set es) b'" by blast
    moreover have "barrier_step b e = Some ?b" using Then by simp
    ultimately show ?thesis using Then by simp
  qed
qed

lemma valid_from_prefix:
  "valid_from g fs fin th (es @ rest) \<Longrightarrow> valid_from g fs fin th es"
  by (induction g fs fin th es rule: valid_from.induct) auto

lemma fires_member: "(j \<in> set (fires es)) = (Fire j \<in> set es)"
  by (induction es rule: fires.induct) auto

lemma all_fired:
  assumes "distinct fs" and "set fs \<subseteq> {..<g}"
  shows "(length fs = g) = (\<forall>j<g. j \<in> set fs)"
proof
  assume "length fs = g"
  then have "card (set fs) = card {..<g}" using assms(1) by (simp add: distinct_card)
  with assms(2) have "set fs = {..<g}" by (intro card_subset_eq) simp_all
  then show "\<forall>j<g. j \<in> set fs" by simp
next
  assume "\<forall>j<g. j \<in> set fs"
  with assms(2) have "set fs = {..<g}" by auto
  then have "card (set fs) = g" by simp
  then show "length fs = g" using assms(1) by (simp add: distinct_card)
qed

text \<open>
  Claim C4.  Take any use of a barrier that the contract admits, with any number of
  signals obtained and any interleaving of their invocations with \<open>finalize()\<close> and
  \<open>then\<close>, and stop it at any moment (\<open>es\<close> is what has happened, \<open>rest\<close> what is to come).
  No operation has failed, and the continuation has run once if \<open>finalize()\<close> has been
  called, \<open>then\<close> has been called and every signal obtained has been invoked, and has
  not run otherwise.  So it runs with the operation that completes this condition, be
  it the last signal, \<open>finalize()\<close> or \<open>then\<close>, and never again.
\<close>

theorem barrier_fires_once:
  assumes "valid (es @ rest)"
  shows "\<exists>b. barrier_run newBarrier es = Some b \<and>
             fired b = (if Finalize \<in> set es \<and> Then \<in> set es \<and> (\<forall>j<gets es. Fire j \<in> set es)
                        then 1 else 0)"
proof -
  from assms have v: "valid_from 0 [] False False es"
    unfolding valid_def by (rule valid_from_prefix)
  have i: "barrier_inv 0 [] False False newBarrier"
    by (simp add: barrier_inv_def newBarrier_def)
  from barrier_run_inv [OF v i] obtain b where
    r: "barrier_run newBarrier es = Some b" and
    inv: "barrier_inv (gets es) (rev (fires es)) (Finalize \<in> set es) (Then \<in> set es) b"
    by auto
  from inv have d: "distinct (rev (fires es))" and s: "set (rev (fires es)) \<subseteq> {..<gets es}"
    and f: "fired b = (if Finalize \<in> set es \<and> Then \<in> set es \<and> length (rev (fires es)) = gets es
                       then 1 else 0)"
    by (simp_all add: barrier_inv_def)
  have "(length (rev (fires es)) = gets es) = (\<forall>j<gets es. Fire j \<in> set es)"
    using all_fired [OF d s] by (simp add: fires_member)
  with f have "fired b = (if Finalize \<in> set es \<and> Then \<in> set es \<and> (\<forall>j<gets es. Fire j \<in> set es)
                        then 1 else 0)"
    by simp
  with r show ?thesis by blast
qed

theorem barrier_fires_once_witness:
  "valid ([Get, Get, Finalize, Then, Fire 0, Fire 1] @ []) \<and>
   (\<exists>b. barrier_run newBarrier [Get, Get, Finalize, Then, Fire 0, Fire 1] = Some b \<and> fired b = 1) \<and>
   (\<exists>b. barrier_run newBarrier [Get, Get, Finalize, Then, Fire 0] = Some b \<and> fired b = 0)"
proof -
  have v: "valid ([Get, Get, Finalize, Then, Fire 0, Fire 1] @ [])"
    by (simp add: valid_def)
  have all: "(\<forall>j<2::nat. j = 0 \<or> j = 1)" by auto
  from barrier_fires_once [OF v] all
  have a: "\<exists>b. barrier_run newBarrier [Get, Get, Finalize, Then, Fire 0, Fire 1] = Some b \<and> fired b = 1"
    by simp
  have b: "\<exists>b. barrier_run newBarrier [Get, Get, Finalize, Then, Fire 0] = Some b \<and> fired b = 0"
    by (simp add: newBarrier_def settle_def)
  from v a b show ?thesis by (intro conjI)
qed

end
